theory Spec2Isabelle
  imports Complex_Main "HOL-Library.Char_ord" "HOL-Library.List_Lexorder"
begin

section \<open>JavaScript values\<close>

text \<open>
  The program is TypeScript running in a browser. Its declared types are erased at run
  time, so a field declared \<open>string\<close> can hold any value that \<open>JSON.parse\<close> delivers.
  Run-time values are modelled by \<open>jsval\<close>; numbers by \<open>jsnum\<close> (a finite number, the two
  infinities, or NaN). Finite numbers are reals and their arithmetic is exact: the
  latency and the score come from integers and quotients by 20, where IEEE doubles round
  to the same integer; the speed is rounded from products with 0.1 and 0.2, taken
  exactly here. An object lists each of its keys once. A \<open>char\<close> stands for one code
  unit of a JavaScript string.
\<close>

datatype jsnum = NaN | Fin real | PosInf | NegInf

datatype jsval =
    Undefined
  | Null
  | Bool bool
  | Num jsnum
  | Str string
  | Arr "jsval list"
  | Obj "(string \<times> jsval) list"

datatype exn = InvalidCharacterError | SyntaxError | TypeError | URIError

text \<open>The relational operators on numbers: every comparison with NaN is false.\<close>

fun num_lt :: "jsnum \<Rightarrow> jsnum \<Rightarrow> bool" where
  "num_lt NaN _ = False"
| "num_lt _ NaN = False"
| "num_lt (Fin a) (Fin b) = (a < b)"
| "num_lt (Fin a) PosInf = True"
| "num_lt (Fin a) NegInf = False"
| "num_lt PosInf _ = False"
| "num_lt NegInf NegInf = False"
| "num_lt NegInf _ = True"

definition num_gt :: "jsnum \<Rightarrow> jsnum \<Rightarrow> bool" where
  "num_gt a b = num_lt b a"

definition num_eq :: "jsnum \<Rightarrow> jsnum \<Rightarrow> bool" where
  "num_eq a b = (a \<noteq> NaN \<and> a = b)"

definition isNaN :: "jsnum \<Rightarrow> bool" where
  "isNaN a = (a = NaN)"

text \<open>Truthiness, as \<open>||\<close>, \<open>&&\<close> and \<open>!\<close> read it.\<close>

fun truthy :: "jsval \<Rightarrow> bool" where
  "truthy Undefined = False"
| "truthy Null = False"
| "truthy (Bool b) = b"
| "truthy (Num n) = (n \<noteq> NaN \<and> n \<noteq> Fin 0)"
| "truthy (Str s) = (s \<noteq> [])"
| "truthy (Arr _) = True"
| "truthy (Obj _) = True"

text \<open>
  Property access \<open>v.k\<close> for a key \<open>k\<close> that no built-in prototype defines (the program
  reads \<open>ps\<close>, \<open>add\<close>, \<open>port\<close>, \<open>bogon\<close>, \<open>ip\<close> and \<open>country\<close>): a TypeError on
  \<open>null\<close> and \<open>undefined\<close>, the own property of an object, \<open>undefined\<close> otherwise.
\<close>

fun get_prop :: "jsval \<Rightarrow> string \<Rightarrow> exn + jsval" where
  "get_prop Undefined k = Inl TypeError"
| "get_prop Null k = Inl TypeError"
| "get_prop (Obj kvs) k = (case map_of kvs k of None \<Rightarrow> Inr Undefined | Some v \<Rightarrow> Inr v)"
| "get_prop _ k = Inr Undefined"

subsection \<open>Strings\<close>

fun startsWith :: "string \<Rightarrow> string \<Rightarrow> bool" where
  "startsWith s [] = True"
| "startsWith [] (p # ps) = False"
| "startsWith (c # s) (p # ps) = (c = p \<and> startsWith s ps)"

text \<open>\<open>s.replace(pat, rep)\<close> with a string pattern: the first occurrence only.\<close>

fun replace_first :: "string \<Rightarrow> string \<Rightarrow> string \<Rightarrow> string" where
  "replace_first pat rep [] = (if pat = [] then rep else [])"
| "replace_first pat rep (c # cs) =
     (if startsWith (c # cs) pat then rep @ drop (length pat) (c # cs)
      else c # replace_first pat rep cs)"

text \<open>\<open>s.includes(t)\<close>: \<open>t\<close> occurs in \<open>s\<close> as a contiguous substring.\<close>

fun js_includes :: "string \<Rightarrow> string \<Rightarrow> bool" where
  "js_includes [] t = (t = [])"
| "js_includes (c # cs) t = (startsWith (c # cs) t \<or> js_includes cs t)"

text \<open>
  \<open>s.trim()\<close> strips white space and line terminators from both ends; among the code
  units below 256 these are TAB, LF, VT, FF, CR, SPACE and NBSP.
\<close>

definition is_ws :: "char \<Rightarrow> bool" where
  "is_ws c = (of_char c \<in> {9, 10, 11, 12, 13, 32, 160 :: nat})"

definition js_trim :: "string \<Rightarrow> string" where
  "js_trim s = rev (dropWhile is_ws (rev (dropWhile is_ws s)))"

section \<open>The platform\<close>

text \<open>
  The built-ins of the browser that the program calls, the \<open>COUNTRIES\<close> table of
  \<open>constants.ts\<close> (which is not among the sources; a list of code and name here) and
  \<open>uuidv4\<close> of the \<open>uuid\<close> package are parameters of the model. A built-in that
  throws returns \<open>None\<close>; the caller turns it into the exception the platform raises.
\<close>

record url =
  url_protocol :: string
  url_hostname :: string
  url_port :: string
  url_hash :: string

record platform =
  atob :: "string \<Rightarrow> string option"
  JSON_parse :: "string \<Rightarrow> jsval option"
  URL_new :: "string \<Rightarrow> url option"
  decodeURIComponent :: "string \<Rightarrow> string option"
  StringToNumber :: "string \<Rightarrow> jsnum"
  NumberToString :: "jsnum \<Rightarrow> string"
  toLowerCase :: "string \<Rightarrow> string"
  COUNTRIES :: "(string \<times> string) list"
  uuidv4 :: "nat \<Rightarrow> string"

definition throwing :: "exn \<Rightarrow> 'a option \<Rightarrow> exn + 'a" where
  "throwing e r = (case r of None \<Rightarrow> Inl e | Some v \<Rightarrow> Inr v)"

text \<open>
  \<open>String(v)\<close> and \<open>Number(v)\<close> on the values \<open>JSON.parse\<close> can deliver. A plain
  object is converted through its \<open>toString\<close>: an own key of that name holds a JSON
  value, which cannot be called, and the conversion raises a TypeError; without such a
  key the inherited method gives \<open>[object Object]\<close>. An array joins the strings of its
  elements with commas (\<open>null\<close> and \<open>undefined\<close> as the empty string), so it raises when
  an element does. Both convert to a number through that string.
\<close>

fun conversion_throws :: "jsval \<Rightarrow> bool" where
  "conversion_throws (Obj kvs) = (''toString'' \<in> set (map fst kvs))"
| "conversion_throws (Arr xs) = list_ex conversion_throws xs"
| "conversion_throws _ = False"

fun intercalate :: "string \<Rightarrow> string list \<Rightarrow> string" where
  "intercalate sep [] = []"
| "intercalate sep [x] = x"
| "intercalate sep (x # y # ys) = x @ sep @ intercalate sep (y # ys)"

text \<open>The string and the number of a value whose conversion does not raise.\<close>

fun string_of :: "platform \<Rightarrow> jsval \<Rightarrow> string" where
  "string_of pf Undefined = ''undefined''"
| "string_of pf Null = ''null''"
| "string_of pf (Bool b) = (if b then ''true'' else ''false'')"
| "string_of pf (Num n) = NumberToString pf n"
| "string_of pf (Str s) = s"
| "string_of pf (Arr xs) =
     intercalate '','' (map (\<lambda>x. if x = Undefined \<or> x = Null then [] else string_of pf x) xs)"
| "string_of pf (Obj kvs) = ''[object Object]''"

fun number_of :: "platform \<Rightarrow> jsval \<Rightarrow> jsnum" where
  "number_of pf Undefined = NaN"
| "number_of pf Null = Fin 0"
| "number_of pf (Bool b) = (if b then Fin 1 else Fin 0)"
| "number_of pf (Num n) = n"
| "number_of pf (Str s) = StringToNumber pf s"
| "number_of pf (Arr xs) = StringToNumber pf (string_of pf (Arr xs))"
| "number_of pf (Obj kvs) = StringToNumber pf (string_of pf (Obj kvs))"

definition js_String :: "platform \<Rightarrow> jsval \<Rightarrow> exn + string" where
  "js_String pf v = (if conversion_throws v then Inl TypeError else Inr (string_of pf v))"

definition js_Number :: "platform \<Rightarrow> jsval \<Rightarrow> exn + jsnum" where
  "js_Number pf v = (if conversion_throws v then Inl TypeError else Inr (number_of pf v))"

text \<open>
  \<open>a < b\<close> and \<open>a > b\<close>: both operands are made primitive, the left one first, objects
  and arrays through their strings; two strings compare by code units, anything else as
  numbers.
\<close>

definition ToPrimitive :: "platform \<Rightarrow> jsval \<Rightarrow> exn + jsval" where
  "ToPrimitive pf v =
     (if conversion_throws v then Inl TypeError
      else Inr (case v of
                  Arr xs \<Rightarrow> Str (string_of pf v)
                | Obj kvs \<Rightarrow> Str (string_of pf v)
                | _ \<Rightarrow> v))"

definition prim_lt :: "platform \<Rightarrow> jsval \<Rightarrow> jsval \<Rightarrow> bool" where
  "prim_lt pf a b =
     (case (a, b) of
        (Str s, Str t) \<Rightarrow> s < t
      | _ \<Rightarrow> num_lt (number_of pf a) (number_of pf b))"

definition js_lt :: "platform \<Rightarrow> jsval \<Rightarrow> jsval \<Rightarrow> exn + bool" where
  "js_lt pf a b =
     (case ToPrimitive pf a of
        Inl e \<Rightarrow> Inl e
      | Inr pa \<Rightarrow> (case ToPrimitive pf b of
                    Inl e \<Rightarrow> Inl e
                  | Inr pb \<Rightarrow> Inr (prim_lt pf pa pb)))"

definition js_gt :: "platform \<Rightarrow> jsval \<Rightarrow> jsval \<Rightarrow> exn + bool" where
  "js_gt pf a b =
     (case ToPrimitive pf a of
        Inl e \<Rightarrow> Inl e
      | Inr pa \<Rightarrow> (case ToPrimitive pf b of
                    Inl e \<Rightarrow> Inl e
                  | Inr pb \<Rightarrow> Inr (prim_lt pf pb pa)))"

text \<open>\<open>Math.min\<close> of two numbers: NaN when either is.\<close>

fun Math_min :: "jsnum \<Rightarrow> jsnum \<Rightarrow> jsnum" where
  "Math_min NaN _ = NaN"
| "Math_min _ NaN = NaN"
| "Math_min NegInf _ = NegInf"
| "Math_min _ NegInf = NegInf"
| "Math_min PosInf b = b"
| "Math_min a PosInf = a"
| "Math_min (Fin a) (Fin b) = Fin (min a b)"

section \<open>The data model (\<open>types.ts\<close>)\<close>

datatype Protocol = Vmess | Vless | Shadowsocks | Trojan | Hidify | Unknown

datatype Status = Active | Slow | Inactive | Testing | Untested

text \<open>The string value of each member of the \<open>Protocol\<close> enum.\<close>

fun Protocol_str :: "Protocol \<Rightarrow> string" where
  "Protocol_str Vmess = ''Vmess''"
| "Protocol_str Vless = ''Vless''"
| "Protocol_str Shadowsocks = ''Shadowsocks''"
| "Protocol_str Trojan = ''Trojan''"
| "Protocol_str Hidify = ''Hidify''"
| "Protocol_str Unknown = ''Unknown''"

text \<open>
  \<open>ProxyConfig\<close>. The fields \<open>id\<close> and \<open>group\<close> are named \<open>ident\<close> and \<open>group_c\<close> here.
  \<open>name\<close>, \<open>host\<close>, \<open>port\<close> and \<open>ip\<close> are written from parsed JSON without a check, so
  they hold run-time values; \<open>latency\<close>, \<open>score\<close> and \<open>speed\<close> are the integers the
  tester writes.
\<close>

record ProxyConfig =
  ident :: string
  name :: jsval
  protocol :: Protocol
  host :: jsval
  port :: jsnum
  ip :: jsval
  country :: string
  countryCode :: string
  latency :: int
  status :: Status
  score :: int
  lastTested :: string
  rawConfig :: string
  latencyHistory :: "int list"
  speed :: int
  group_c :: "string option"

text \<open>
  The \<open>Partial<ProxyConfig>\<close> a parser returns: a key that is present carries \<open>Some\<close>
  value, also when that value is \<open>undefined\<close>.
\<close>

record Parsed =
  p_name :: "jsval option"
  p_protocol :: "Protocol option"
  p_host :: "jsval option"
  p_port :: "jsnum option"

section \<open>The link codec: \<open>parseConfig\<close> (ConfigManager.tsx)\<close>

definition placeholder :: Parsed where
  "placeholder =
     \<lparr>p_name = Some (Str ''Unnamed Config''), p_protocol = Some Unknown,
      p_host = Some (Str ''unknown.host''), p_port = Some (Fin 0)\<rparr>"

text \<open>
  The branch for \<open>vmess://\<close>: base64, then JSON, then three property reads and the
  conversion of the port to a number.
\<close>

definition parse_vmess :: "platform \<Rightarrow> string \<Rightarrow> exn + Parsed" where
  "parse_vmess pf raw =
     (case throwing InvalidCharacterError (atob pf (replace_first ''vmess://'' [] raw)) of
        Inl e \<Rightarrow> Inl e
      | Inr decoded \<Rightarrow>
     (case throwing SyntaxError (JSON_parse pf decoded) of
        Inl e \<Rightarrow> Inl e
      | Inr data \<Rightarrow>
     (case get_prop data ''ps'' of
        Inl e \<Rightarrow> Inl e
      | Inr ps \<Rightarrow>
     (case get_prop data ''add'' of
        Inl e \<Rightarrow> Inl e
      | Inr add \<Rightarrow>
     (case get_prop data ''port'' of
        Inl e \<Rightarrow> Inl e
      | Inr prt \<Rightarrow>
     (case js_Number pf prt of
        Inl e \<Rightarrow> Inl e
      | Inr n \<Rightarrow>
          Inr \<lparr>p_name = Some (if truthy ps then ps else Str ''Vmess Config''),
               p_protocol = Some Vmess,
               p_host = Some add,
               p_port = Some n\<rparr>))))))"

text \<open>The branch for \<open>vless://\<close>, \<open>ss://\<close> and \<open>trojan://\<close>: the URL constructor.\<close>

definition parse_url :: "platform \<Rightarrow> string \<Rightarrow> exn + Parsed" where
  "parse_url pf raw =
     (case throwing TypeError (URL_new pf raw) of
        Inl e \<Rightarrow> Inl e
      | Inr u \<Rightarrow>
          (let protocolStr = replace_first '':'' [] (url_protocol u);
               proto = (if protocolStr = ''vless'' then Vless
                        else if protocolStr = ''ss'' then Shadowsocks
                        else if protocolStr = ''trojan'' then Trojan
                        else Unknown)
           in case throwing URIError (decodeURIComponent pf (drop 1 (url_hash u))) of
                Inl e \<Rightarrow> Inl e
              | Inr frag \<Rightarrow>
                  Inr \<lparr>p_name = Some (Str (if frag \<noteq> [] then frag
                                             else Protocol_str proto @ '' Config'')),
                       p_protocol = Some proto,
                       p_host = Some (Str (url_hostname u)),
                       p_port = Some (StringToNumber pf (url_port u))\<rparr>))"

text \<open>
  The body of the \<open>try\<close> block: \<open>Inl\<close> when it throws, \<open>Inr None\<close> when no branch
  returns, \<open>Inr (Some p)\<close> when a branch returns \<open>p\<close>.
\<close>

definition parseConfig_try :: "platform \<Rightarrow> string \<Rightarrow> exn + Parsed option" where
  "parseConfig_try pf raw =
     (if startsWith raw ''vmess://'' then map_sum (\<lambda>e. e) Some (parse_vmess pf raw)
      else if startsWith raw ''vless://'' \<or> startsWith raw ''ss://'' \<or> startsWith raw ''trojan://''
        then map_sum (\<lambda>e. e) Some (parse_url pf raw)
      else Inr None)"

text \<open>\<open>try { body } catch (error) { handler }\<close>.\<close>

definition try_catch :: "exn + 'a \<Rightarrow> (exn \<Rightarrow> exn + 'a) \<Rightarrow> exn + 'a" where
  "try_catch body handler = (case body of Inl e \<Rightarrow> handler e | Inr v \<Rightarrow> Inr v)"

text \<open>
  \<open>parseConfig\<close>: the handler only logs, and control then reaches the final
  \<open>return\<close> of the placeholder.
\<close>

definition parseConfig :: "platform \<Rightarrow> string \<Rightarrow> exn + Parsed" where
  "parseConfig pf raw =
     (case try_catch (parseConfig_try pf raw) (\<lambda>e. Inr None) of
        Inl e \<Rightarrow> Inl e
      | Inr (Some p) \<Rightarrow> Inr p
      | Inr None \<Rightarrow> Inr placeholder)"

text \<open>
  The JSON value a \<open>vmess://\<close> link carries: \<open>None\<close> when the base64 or the JSON layer
  throws. \<open>JSON.parse\<close> never delivers \<open>undefined\<close>; \<open>nullish\<close> covers it because the
  parser of the platform is a parameter here.
\<close>

definition vmess_payload :: "platform \<Rightarrow> string \<Rightarrow> jsval option" where
  "vmess_payload pf raw =
     (case atob pf (replace_first ''vmess://'' [] raw) of
        None \<Rightarrow> None
      | Some decoded \<Rightarrow> JSON_parse pf decoded)"

definition nullish :: "jsval \<Rightarrow> bool" where
  "nullish v = (v = Null \<or> v = Undefined)"

definition prop_or_undefined :: "jsval \<Rightarrow> string \<Rightarrow> jsval" where
  "prop_or_undefined v k = (case get_prop v k of Inl e \<Rightarrow> Undefined | Inr x \<Rightarrow> x)"

section \<open>The inventory: \<open>addProcessedConfigs\<close>\<close>

text \<open>The object literal of a new record, before the parsed keys are spread over it.\<close>

definition new_config :: "string \<Rightarrow> jsval \<Rightarrow> string \<Rightarrow> ProxyConfig" where
  "new_config uid nm raw =
     \<lparr>ident = uid, name = nm, protocol = Unknown, host = Str ''N/A'', port = Fin 0,
      ip = Str ''N/A'', country = ''Unknown'', countryCode = ''UNKNOWN'', latency = - 1,
      status = Untested, score = 0, lastTested = ''Never'', rawConfig = raw,
      latencyHistory = [], speed = 0, group_c = None\<rparr>"

text \<open>\<open>{...c, ...parsed}\<close>: every key present in \<open>parsed\<close> overrides the field of \<open>c\<close>.\<close>

definition spread_parsed :: "ProxyConfig \<Rightarrow> Parsed \<Rightarrow> ProxyConfig" where
  "spread_parsed c p =
     c\<lparr>name := (case p_name p of None \<Rightarrow> name c | Some v \<Rightarrow> v),
       protocol := (case p_protocol p of None \<Rightarrow> protocol c | Some v \<Rightarrow> v),
       host := (case p_host p of None \<Rightarrow> host c | Some v \<Rightarrow> v),
       port := (case p_port p of None \<Rightarrow> port c | Some v \<Rightarrow> v)\<rparr>"

text \<open>
  \<open>xs.map(f)\<close> for a callback that can throw: the first exception leaves the \<open>map\<close> and
  no array is produced. The callback also receives the number of identifiers drawn so far.
\<close>

fun map_throwing :: "(nat \<Rightarrow> 'a \<Rightarrow> exn + 'b) \<Rightarrow> nat \<Rightarrow> 'a list \<Rightarrow> exn + 'b list" where
  "map_throwing f k [] = Inr []"
| "map_throwing f k (x # xs) =
     (case f k x of
        Inl e \<Rightarrow> Inl e
      | Inr y \<Rightarrow> (case map_throwing f (Suc k) xs of Inl e \<Rightarrow> Inl e | Inr ys \<Rightarrow> Inr (y # ys)))"

text \<open>\<open>xs.filter(p)\<close> and \<open>xs.every(p)\<close> for a predicate that can throw; \<open>every\<close> stops at the first false.\<close>

fun filter_throwing :: "('a \<Rightarrow> exn + bool) \<Rightarrow> 'a list \<Rightarrow> exn + 'a list" where
  "filter_throwing p [] = Inr []"
| "filter_throwing p (x # xs) =
     (case p x of
        Inl e \<Rightarrow> Inl e
      | Inr b \<Rightarrow> (case filter_throwing p xs of
                   Inl e \<Rightarrow> Inl e
                 | Inr ys \<Rightarrow> Inr (if b then x # ys else ys)))"

fun every_throwing :: "('a \<Rightarrow> exn + bool) \<Rightarrow> 'a list \<Rightarrow> exn + bool" where
  "every_throwing p [] = Inr True"
| "every_throwing p (x # xs) =
     (case p x of
        Inl e \<Rightarrow> Inl e
      | Inr b \<Rightarrow> (if b then every_throwing p xs else Inr False))"

text \<open>The filter both versions apply: not blank, and not the raw string of a record of the inventory.\<close>

definition fresh_raws :: "ProxyConfig list \<Rightarrow> string list \<Rightarrow> string list" where
  "fresh_raws configs rawConfigs =
     filter (\<lambda>raw. js_trim raw \<noteq> [] \<and> raw \<notin> set (map rawConfig configs)) rawConfigs"

text \<open>
  \<open>addProcessedConfigs\<close> of ConfigManager.tsx. The result is the inventory after the
  call and the returned count; \<open>k\<close> is the number of identifiers drawn before the call.
\<close>

definition make_config :: "platform \<Rightarrow> nat \<Rightarrow> string \<Rightarrow> exn + ProxyConfig" where
  "make_config pf k raw =
     (case parseConfig pf raw of
        Inl e \<Rightarrow> Inl e
      | Inr parsed \<Rightarrow> Inr (spread_parsed (new_config (uuidv4 pf k) (Str ''New Config'') raw) parsed))"

definition addProcessedConfigs ::
  "platform \<Rightarrow> nat \<Rightarrow> ProxyConfig list \<Rightarrow> string list \<Rightarrow> exn + ProxyConfig list \<times> nat" where
  "addProcessedConfigs pf k configs rawConfigs =
     (case map_throwing (make_config pf) k (fresh_raws configs rawConfigs) of
        Inl e \<Rightarrow> Inl e
      | Inr newConfigs \<Rightarrow>
          Inr (if length newConfigs > 0 then configs @ newConfigs else configs,
               length newConfigs))"

text \<open>
  \<open>addProcessedConfigs\<close> of App.tsx, which serves the import from a share link. Its own
  \<open>parseConfig\<close> returns the protocol only; the URL constructor and
  \<open>decodeURIComponent\<close> are called in the callback of \<open>map\<close>, outside any \<open>try\<close>.
\<close>

definition parseConfig_App :: "string \<Rightarrow> Parsed" where
  "parseConfig_App raw =
     \<lparr>p_name = None,
      p_protocol = Some (if startsWith raw ''vmess://'' then Vmess
                         else if startsWith raw ''vless://'' then Vless
                         else if startsWith raw ''ss://'' then Shadowsocks
                         else if startsWith raw ''trojan://'' then Trojan
                         else Unknown),
      p_host = None, p_port = None\<rparr>"

definition make_config_App :: "platform \<Rightarrow> nat \<Rightarrow> string \<Rightarrow> exn + ProxyConfig" where
  "make_config_App pf k raw =
     (let parsed = parseConfig_App raw in
      case throwing TypeError
             (URL_new pf (if startsWith raw ''ss://'' then ''http://'' @ drop 5 raw else raw)) of
        Inl e \<Rightarrow> Inl e
      | Inr u \<Rightarrow>
          (case throwing URIError (decodeURIComponent pf (drop 1 (url_hash u))) of
             Inl e \<Rightarrow> Inl e
           | Inr nm \<Rightarrow>
               Inr (spread_parsed
                      (new_config (uuidv4 pf k) (Str (if nm \<noteq> [] then nm else ''New Config'')) raw)
                      parsed)))"

definition addProcessedConfigs_App ::
  "platform \<Rightarrow> nat \<Rightarrow> ProxyConfig list \<Rightarrow> string list \<Rightarrow> exn + ProxyConfig list \<times> nat" where
  "addProcessedConfigs_App pf k configs rawConfigs =
     (case map_throwing (make_config_App pf) k (fresh_raws configs rawConfigs) of
        Inl e \<Rightarrow> Inl e
      | Inr newConfigs \<Rightarrow>
          Inr (if length newConfigs > 0 then configs @ newConfigs else configs,
               length newConfigs))"

section \<open>The tester: \<open>testConfig\<close> (ConfigManager.tsx)\<close>

text \<open>
  \<open>testConfig\<close> draws from \<open>Math.random()\<close> for the latency, for the reported failure
  and for the jitter of the speed (the draw for the delay of the timer changes no value),
  and it fetches a geolocation. One probe's draws, the outcome of the fetch and the
  clock reading its caller stores are its inputs here. \<open>Math.random()\<close> returns a
  number in \<open>[0, 1)\<close>.
\<close>

datatype geo_fetch =
    FetchFails    \<comment> \<open>\<open>fetch\<close> or \<open>response.json()\<close> throws\<close>
  | NotOk         \<comment> \<open>\<open>response.ok\<close> is false\<close>
  | GeoJson jsval \<comment> \<open>the parsed body\<close>

record draws =
  d_latency :: real
  d_fail :: real
  d_speed :: real
  d_geo :: geo_fetch
  d_now :: string

definition valid_draws :: "draws \<Rightarrow> bool" where
  "valid_draws d =
     (0 \<le> d_latency d \<and> d_latency d < 1 \<and> 0 \<le> d_fail d \<and> d_fail d < 1
      \<and> 0 \<le> d_speed d \<and> d_speed d < 1)"

text \<open>\<open>Math.round\<close> rounds to the nearest integer, a half towards \<open>+\<infinity>\<close>.\<close>

definition Math_round :: "real \<Rightarrow> int" where
  "Math_round x = \<lfloor>x + 1 / 2\<rfloor>"

text \<open>The keys of the \<open>Partial<ProxyConfig>\<close> the tester resolves to.\<close>

record TestResult =
  r_status :: Status
  r_latency :: int
  r_score :: int
  r_speed :: int
  r_latencyHistory :: "int list"
  r_geo :: "(jsval \<times> string \<times> string) option"

definition testLatency :: "draws \<Rightarrow> int" where
  "testLatency d = 50 + \<lfloor>d_latency d * 2000\<rfloor>"

text \<open>The condition of the failure branch; the second draw is read only when the first test is false.\<close>

definition probe_failed :: "jsnum \<Rightarrow> draws \<Rightarrow> bool" where
  "probe_failed timeout d =
     (num_gt (Fin (real_of_int (testLatency d))) timeout \<or> d_fail d > 8 / 10)"

text \<open>
  The geolocation keys: set when the fetch succeeds with a truthy body that is not
  flagged \<open>bogon\<close>; a failed fetch is caught and leaves them out.
\<close>

definition geo_keys :: "platform \<Rightarrow> geo_fetch \<Rightarrow> (jsval \<times> string \<times> string) option" where
  "geo_keys pf g =
     (case g of
        FetchFails \<Rightarrow> None
      | NotOk \<Rightarrow> None
      | GeoJson geoData \<Rightarrow>
          if truthy geoData \<and> \<not> truthy (prop_or_undefined geoData ''bogon'') then
            (let code = (case prop_or_undefined geoData ''country'' of
                           Str s \<Rightarrow> (if s \<in> set (map fst (COUNTRIES pf)) \<and> s \<noteq> [] then s
                                     else ''UNKNOWN'')
                         | _ \<Rightarrow> ''UNKNOWN'');
                 cname = (case map_of (COUNTRIES pf) code of
                            None \<Rightarrow> ''Unknown''
                          | Some n \<Rightarrow> (if n \<noteq> [] then n else ''Unknown''))
             in Some (prop_or_undefined geoData ''ip'', code, cname))
          else None)"

definition testConfig :: "platform \<Rightarrow> ProxyConfig \<Rightarrow> jsnum \<Rightarrow> draws \<Rightarrow> TestResult" where
  "testConfig pf config timeout d =
     (let newHistory = take 10 (testLatency d # latencyHistory config) in
      if probe_failed timeout d then
        \<lparr>r_status = Inactive, r_latency = - 1, r_score = 0, r_speed = 0,
         r_latencyHistory = take 10 (- 1 # latencyHistory config), r_geo = None\<rparr>
      else
        (let st = (if testLatency d > 1000 then Slow else Active);
             sc = max 0 (Math_round (100 - real_of_int (testLatency d) / 20));
             baseSpeed = max 50 (2000 - testLatency d);
             sp = Math_round (real_of_int baseSpeed
                    + (d_speed d * real_of_int baseSpeed * (2 / 10)
                       - real_of_int baseSpeed * (1 / 10)))
         in \<lparr>r_status = st, r_latency = testLatency d, r_score = sc, r_speed = sp,
             r_latencyHistory = newHistory, r_geo = geo_keys pf (d_geo d)\<rparr>))"

text \<open>\<open>{ ...c, ...result, lastTested: now }\<close>, as both the manual and the automatic run merge a result.\<close>

definition apply_result :: "ProxyConfig \<Rightarrow> TestResult \<Rightarrow> string \<Rightarrow> ProxyConfig" where
  "apply_result c r now =
     (let c' = c\<lparr>status := r_status r, latency := r_latency r, score := r_score r,
                 speed := r_speed r, latencyHistory := r_latencyHistory r, lastTested := now\<rparr>
      in case r_geo r of
           None \<Rightarrow> c'
         | Some (i, code, cname) \<Rightarrow> c'\<lparr>ip := i, countryCode := code, country := cname\<rparr>)"

text \<open>
  One completed probe of a record, merged into the record it was started from, and a
  sequence of such probes, oldest first, that do not overlap: each is started from the
  record the one before has left. Probes of one record that overlap (a manual run
  started while an automatic pass is under way) are not of this form; they are composed
  from \<open>testConfig\<close>, \<open>autoTest_pass\<close> and \<open>step\<close> below.
\<close>

definition probe :: "platform \<Rightarrow> jsnum \<Rightarrow> ProxyConfig \<Rightarrow> draws \<Rightarrow> ProxyConfig" where
  "probe pf timeout c d = apply_result c (testConfig pf c timeout d) (d_now d)"

definition sequential_probes ::
  "platform \<Rightarrow> jsnum \<Rightarrow> ProxyConfig \<Rightarrow> draws list \<Rightarrow> ProxyConfig" where
  "sequential_probes pf timeout c ds = foldl (probe pf timeout) c ds"

text \<open>The sample a probe records: the sentinel on failure, the measured latency otherwise.\<close>

definition probe_sample :: "jsnum \<Rightarrow> draws \<Rightarrow> int" where
  "probe_sample timeout d = (if probe_failed timeout d then - 1 else testLatency d)"

section \<open>The rule engine: \<open>evaluateRule\<close> and the smart groups (ConfigManager.tsx)\<close>

datatype RuleField =
  F_name | F_protocol | F_host | F_country | F_latency | F_score | F_speed | F_group | F_rawConfig

datatype RuleOperator = contains | not_contains | equals | not_equals | greater_than | less_than

record Rule =
  rule_id :: string
  rule_field :: RuleField
  rule_operator :: RuleOperator
  rule_value :: jsval

record SmartGroup =
  sg_id :: string
  sg_name :: string
  sg_color :: string
  sg_rules :: "Rule list"

text \<open>\<open>config[rule.field]\<close>; a record without a group has no such key.\<close>

fun field_value :: "ProxyConfig \<Rightarrow> RuleField \<Rightarrow> jsval" where
  "field_value c F_name = name c"
| "field_value c F_protocol = Str (Protocol_str (protocol c))"
| "field_value c F_host = host c"
| "field_value c F_country = Str (country c)"
| "field_value c F_latency = Num (Fin (real_of_int (latency c)))"
| "field_value c F_score = Num (Fin (real_of_int (score c)))"
| "field_value c F_speed = Num (Fin (real_of_int (speed c)))"
| "field_value c F_group = (case group_c c of None \<Rightarrow> Undefined | Some g \<Rightarrow> Str g)"
| "field_value c F_rawConfig = Str (rawConfig c)"

definition numFields :: "RuleField list" where
  "numFields = [F_latency, F_score, F_speed]"

definition strFields :: "RuleField list" where
  "strFields = [F_name, F_protocol, F_host, F_country, F_group, F_rawConfig]"

definition evaluateRule :: "platform \<Rightarrow> ProxyConfig \<Rightarrow> Rule \<Rightarrow> exn + bool" where
  "evaluateRule pf config rule =
     (let configValue = field_value config (rule_field rule);
          ruleValue = rule_value rule
      in if configValue = Undefined \<or> configValue = Null then Inr False
         else if rule_field rule \<in> set numFields then
           (case js_Number pf configValue of
              Inl e \<Rightarrow> Inl e
            | Inr valA \<Rightarrow>
           (case js_Number pf ruleValue of
              Inl e \<Rightarrow> Inl e
            | Inr valB \<Rightarrow>
                Inr (if isNaN valA \<or> isNaN valB then False
                     else (case rule_operator rule of
                             equals \<Rightarrow> num_eq valA valB
                           | not_equals \<Rightarrow> \<not> num_eq valA valB
                           | greater_than \<Rightarrow> num_gt valA valB
                           | less_than \<Rightarrow> num_lt valA valB
                           | _ \<Rightarrow> False))))
         else if rule_field rule \<in> set strFields then
           (case js_String pf configValue of
              Inl e \<Rightarrow> Inl e
            | Inr strA \<Rightarrow>
           (case js_String pf ruleValue of
              Inl e \<Rightarrow> Inl e
            | Inr strB \<Rightarrow>
                (let valA = toLowerCase pf strA;
                     valB = toLowerCase pf strB
                 in Inr (case rule_operator rule of
                           contains \<Rightarrow> js_includes valA valB
                         | not_contains \<Rightarrow> \<not> js_includes valA valB
                         | equals \<Rightarrow> valA = valB
                         | not_equals \<Rightarrow> valA \<noteq> valB
                         | _ \<Rightarrow> False))))
         else Inr False)"

text \<open>
  \<open>configsWithSmartGroups\<close>: each record with the names of the groups all of whose rules
  hold for it. The added key \<open>smartGroups\<close> is the second component of the pair. An
  exception of \<open>evaluateRule\<close> leaves the whole computation.
\<close>

definition matchedGroups :: "platform \<Rightarrow> SmartGroup list \<Rightarrow> ProxyConfig \<Rightarrow> exn + string list" where
  "matchedGroups pf smartGroups c =
     map_sum (\<lambda>e. e) (map sg_name)
       (filter_throwing (\<lambda>sg. every_throwing (\<lambda>rule. evaluateRule pf c rule) (sg_rules sg))
          smartGroups)"

definition configsWithSmartGroups ::
  "platform \<Rightarrow> SmartGroup list \<Rightarrow> ProxyConfig list \<Rightarrow> exn + (ProxyConfig \<times> string list) list" where
  "configsWithSmartGroups pf smartGroups configs =
     map_throwing (\<lambda>k c. map_sum (\<lambda>e. e) (\<lambda>gs. (c, gs)) (matchedGroups pf smartGroups c)) 0 configs"

text \<open>The rule a new smart group starts with (\<open>handleAddRule\<close> of Settings.tsx).\<close>

definition handleAddRule_newRule :: "string \<Rightarrow> Rule" where
  "handleAddRule_newRule uid =
     \<lparr>rule_id = uid, rule_field = F_latency, rule_operator = less_than,
      rule_value = Num (Fin 300)\<rparr>"

section \<open>The query pipeline: \<open>filteredAndSortedConfigs\<close> (ConfigManager.tsx)\<close>

datatype SortKey = K_name | K_latency | K_country | K_score | K_lastTested | K_speed | K_group

datatype SortDirection = asc | desc

text \<open>
  The state of the filters and of the sort. \<open>None\<close> is the choice \<open>All\<close> of the status
  and protocol filters; the group filter is the string the component keeps.
\<close>

record view_state =
  statusFilter :: "Status option"
  protocolFilter :: "Protocol option"
  groupFilter :: string
  searchTerm :: string
  sort_key :: SortKey
  sort_direction :: SortDirection

text \<open>
  \<open>Array.prototype.sort(compare)\<close> is stable. For a comparator that orders its
  arguments consistently the result is the same in every engine; it is computed here by
  insertion from the right, which places an element before its equals that came later.
  An exception of the comparator leaves the sort. The comparator below raises only when
  it makes an operand primitive, and in a list of two or more every element is an
  operand of some comparison, in this order of insertion as in any other.
\<close>

fun insert_by :: "('a \<Rightarrow> 'a \<Rightarrow> exn + int) \<Rightarrow> 'a \<Rightarrow> 'a list \<Rightarrow> exn + 'a list" where
  "insert_by cmp x [] = Inr [x]"
| "insert_by cmp x (y # ys) =
     (case cmp x y of
        Inl e \<Rightarrow> Inl e
      | Inr r \<Rightarrow>
          if r \<le> 0 then Inr (x # y # ys)
          else (case insert_by cmp x ys of Inl e \<Rightarrow> Inl e | Inr zs \<Rightarrow> Inr (y # zs)))"

fun js_sort :: "('a \<Rightarrow> 'a \<Rightarrow> exn + int) \<Rightarrow> 'a list \<Rightarrow> exn + 'a list" where
  "js_sort cmp [] = Inr []"
| "js_sort cmp (x # xs) =
     (case js_sort cmp xs of Inl e \<Rightarrow> Inl e | Inr ys \<Rightarrow> insert_by cmp x ys)"

text \<open>The value the comparator reads for a key: \<open>Infinity\<close> for latency -1, the empty string for no group.\<close>

fun sort_value :: "SortKey \<Rightarrow> ProxyConfig \<Rightarrow> jsval" where
  "sort_value K_latency c = (if latency c = - 1 then Num PosInf else Num (Fin (real_of_int (latency c))))"
| "sort_value K_group c = (case group_c c of None \<Rightarrow> Str [] | Some g \<Rightarrow> Str g)"
| "sort_value K_name c = name c"
| "sort_value K_country c = Str (country c)"
| "sort_value K_score c = Num (Fin (real_of_int (score c)))"
| "sort_value K_lastTested c = Str (lastTested c)"
| "sort_value K_speed c = Num (Fin (real_of_int (speed c)))"

definition compare_configs ::
  "platform \<Rightarrow> SortKey \<Rightarrow> SortDirection \<Rightarrow> ProxyConfig \<Rightarrow> ProxyConfig \<Rightarrow> exn + int" where
  "compare_configs pf key dir a b =
     (let aVal = sort_value key a; bVal = sort_value key b
      in case js_lt pf aVal bVal of
           Inl e \<Rightarrow> Inl e
         | Inr True \<Rightarrow> Inr (if dir = asc then - 1 else 1)
         | Inr False \<Rightarrow>
             (case js_gt pf aVal bVal of
                Inl e \<Rightarrow> Inl e
              | Inr True \<Rightarrow> Inr (if dir = asc then 1 else - 1)
              | Inr False \<Rightarrow> Inr 0))"

text \<open>
  The search filter calls \<open>toLowerCase\<close> on \<open>name\<close> and, when the name does not
  match, on \<open>host\<close>: a TypeError when the value is not a string.
\<close>

definition lower_includes :: "platform \<Rightarrow> jsval \<Rightarrow> string \<Rightarrow> exn + bool" where
  "lower_includes pf v term_lc =
     (case v of Str s \<Rightarrow> Inr (js_includes (toLowerCase pf s) term_lc) | _ \<Rightarrow> Inl TypeError)"

definition search_matches :: "platform \<Rightarrow> string \<Rightarrow> ProxyConfig \<Rightarrow> exn + bool" where
  "search_matches pf term c =
     (case lower_includes pf (name c) (toLowerCase pf term) of
        Inl e \<Rightarrow> Inl e
      | Inr True \<Rightarrow> Inr True
      | Inr False \<Rightarrow> lower_includes pf (host c) (toLowerCase pf term))"

definition group_matches :: "string \<Rightarrow> ProxyConfig \<times> string list \<Rightarrow> bool" where
  "group_matches gf cg =
     (if gf = ''All'' then True
      else if gf = ''none'' then (group_c (fst cg) = None \<or> group_c (fst cg) = Some [])
      else group_c (fst cg) = Some gf \<or> gf \<in> set (snd cg))"

definition filteredAndSortedConfigs ::
  "platform \<Rightarrow> view_state \<Rightarrow> (ProxyConfig \<times> string list) list
     \<Rightarrow> exn + (ProxyConfig \<times> string list) list" where
  "filteredAndSortedConfigs pf v withGroups =
     (let f1 = filter (\<lambda>cg. statusFilter v = None \<or> statusFilter v = Some (status (fst cg))) withGroups;
          f2 = filter (\<lambda>cg. protocolFilter v = None \<or> protocolFilter v = Some (protocol (fst cg))) f1;
          f3 = filter (group_matches (groupFilter v)) f2
      in case filter_throwing (\<lambda>cg. search_matches pf (searchTerm v) (fst cg)) f3 of
           Inl e \<Rightarrow> Inl e
         | Inr f4 \<Rightarrow>
             js_sort (\<lambda>a b. compare_configs pf (sort_key v) (sort_direction v) (fst a) (fst b)) f4)"

section \<open>The scheduler: \<open>startTesting\<close>, \<open>runNext\<close> and \<open>stopTesting\<close> (ConfigManager.tsx)\<close>

text \<open>
  JavaScript runs one callback at a time. A worker is a call of \<open>runNext\<close> suspended at
  \<open>await testConfig(...)\<close>; between two callbacks the state is: the React state
  (\<open>configs\<close>, \<open>isTesting\<close>, the counters and the progress), the stop flag, the variables
  \<open>queue\<close>, \<open>running\<close> and \<open>testedCount\<close> of the run, and the records whose probes are
  pending, one for each suspended worker. A functional update \<open>setConfigs(prev => ...)\<close>
  is applied to the state at once. \<open>concurrentTests\<close> is any number.
\<close>

record sched =
  s_configs :: "ProxyConfig list"
  s_isTesting :: bool
  s_stopFlag :: bool
  s_success :: nat
  s_fail :: nat
  s_progress :: int
  s_queue :: "ProxyConfig list"
  s_running :: int
  s_testedCount :: nat
  s_total :: nat
  s_inflight :: "ProxyConfig list"

definition revert_testing :: "ProxyConfig list \<Rightarrow> ProxyConfig list" where
  "revert_testing cs = map (\<lambda>c. if status c = Testing then c\<lparr>status := Untested\<rparr> else c) cs"

text \<open>\<open>runNext\<close> up to its \<open>await\<close>: it gives up, reports the end of the run, or takes the next record.\<close>

definition runNext :: "sched \<Rightarrow> sched" where
  "runNext s =
     (if s_stopFlag s then
        (if s_running s = 0
         then s\<lparr>s_isTesting := False, s_configs := revert_testing (s_configs s)\<rparr>
         else s)
      else if length (s_queue s) = 0 then
        (if s_running s = 0 then s\<lparr>s_isTesting := False\<rparr> else s)
      else
        s\<lparr>s_running := s_running s + 1,
          s_queue := tl (s_queue s),
          s_inflight := s_inflight s @ [hd (s_queue s)]\<rparr>)"

text \<open>
  The rest of \<open>runNext\<close>, run when the probe of \<open>config\<close> has resolved to \<open>result\<close>:
  the counters and the merge by \<open>id\<close> unless stop was requested, then the bookkeeping
  of the run, then the next call of \<open>runNext\<close>.
\<close>

definition merge_result :: "ProxyConfig \<Rightarrow> TestResult \<Rightarrow> string \<Rightarrow> sched \<Rightarrow> sched" where
  "merge_result config result now s =
     (if \<not> s_stopFlag s then
        s\<lparr>s_success := (if r_status result = Active \<or> r_status result = Slow
                         then s_success s + 1 else s_success s),
          s_fail := (if r_status result = Inactive then s_fail s + 1 else s_fail s),
          s_configs := map (\<lambda>c. if ident c = ident config
                                 then apply_result c result now else c) (s_configs s)\<rparr>
      else s)"

definition count_tested :: "sched \<Rightarrow> sched" where
  "count_tested s =
     s\<lparr>s_testedCount := s_testedCount s + 1,
       s_progress := Math_round (real (s_testedCount s + 1) / real (s_total s) * 100),
       s_running := s_running s - 1\<rparr>"

definition resume :: "ProxyConfig \<Rightarrow> TestResult \<Rightarrow> string \<Rightarrow> sched \<Rightarrow> sched" where
  "resume config result now s = runNext (count_tested (merge_result config result now s))"

text \<open>
  The loop \<open>for (let i = 0; i < Math.min(concurrentTests, queue.length); i++) runNext()\<close>.
  Its bound is read again before every round, after \<open>runNext\<close> has shortened the queue.
  \<open>runNext\<close> never lengthens the queue, so the loop ends.
\<close>

definition launch_bound :: "jsnum \<Rightarrow> nat \<Rightarrow> sched \<Rightarrow> bool" where
  "launch_bound concurrentTests i s =
     num_lt (Fin (real i)) (Math_min concurrentTests (Fin (real (length (s_queue s)))))"

function launch :: "jsnum \<Rightarrow> nat \<Rightarrow> sched \<Rightarrow> sched" where
  "launch concurrentTests i s =
     (if launch_bound concurrentTests i s
      then launch concurrentTests (Suc i) (runNext s)
      else s)"
  by pat_completeness auto
termination
proof (relation "measure (\<lambda>(c, i, s). length (s_queue s) - i)")
  show "wf (measure (\<lambda>(c, i, s). length (s_queue s) - i))"
    by simp
next
  fix concurrentTests :: jsnum and i :: nat and s :: sched
  assume "launch_bound concurrentTests i s"
  then have "i < length (s_queue s)"
    by (cases concurrentTests) (simp_all add: launch_bound_def)
  moreover have "length (s_queue (runNext s)) \<le> length (s_queue s)"
    by (simp add: runNext_def)
  ultimately show "((concurrentTests, Suc i, runNext s), (concurrentTests, i, s))
      \<in> measure (\<lambda>(c, i, s). length (s_queue s) - i)"
    by simp
qed

declare launch.simps [simp del]

text \<open>
  \<open>startTesting\<close>: \<open>view\<close> is the filtered and sorted list the component shows,
  \<open>configs\<close> the inventory; the counters of the previous run are reset.
\<close>

definition configsToTest :: "(ProxyConfig \<times> string list) list \<Rightarrow> ProxyConfig list" where
  "configsToTest view = filter (\<lambda>c. status c = Untested \<or> status c = Inactive) (map fst view)"

definition startTesting ::
  "(ProxyConfig \<times> string list) list \<Rightarrow> ProxyConfig list \<Rightarrow> jsnum \<Rightarrow> sched" where
  "startTesting view configs concurrentTests =
     launch concurrentTests 0
       \<lparr>s_configs = map (\<lambda>c. if ident c \<in> set (map ident (configsToTest view))
                              then c\<lparr>status := Testing\<rparr> else c) configs,
        s_isTesting = True, s_stopFlag = False, s_success = 0, s_fail = 0, s_progress = 0,
        s_queue = configsToTest view, s_running = 0, s_testedCount = 0,
        s_total = length (configsToTest view), s_inflight = []\<rparr>"

text \<open>
  What can happen next: the user presses the button, which calls \<open>stopTesting\<close> while
  \<open>isTesting\<close> is shown, or one of the pending probes resolves. \<open>Finish i d\<close> is the
  completion of the \<open>i\<close>-th pending probe with the draws \<open>d\<close>.
\<close>

datatype event = Stop | Finish nat draws

fun step :: "platform \<Rightarrow> jsnum \<Rightarrow> event \<Rightarrow> sched \<Rightarrow> sched option" where
  "step pf timeout Stop s = (if s_isTesting s then Some (s\<lparr>s_stopFlag := True\<rparr>) else None)"
| "step pf timeout (Finish i d) s =
     (if i < length (s_inflight s) then
        Some (resume (s_inflight s ! i) (testConfig pf (s_inflight s ! i) timeout d) (d_now d)
                (s\<lparr>s_inflight := take i (s_inflight s) @ drop (Suc i) (s_inflight s)\<rparr>))
      else None)"

fun run :: "platform \<Rightarrow> jsnum \<Rightarrow> event list \<Rightarrow> sched \<Rightarrow> sched option" where
  "run pf timeout [] s = Some s"
| "run pf timeout (e # es) s =
     (case step pf timeout e s of None \<Rightarrow> None | Some s' \<Rightarrow> run pf timeout es s')"

text \<open>The number of probes that have completed in a sequence of events.\<close>

fun finishes :: "event list \<Rightarrow> nat" where
  "finishes [] = 0"
| "finishes (Stop # es) = finishes es"
| "finishes (Finish i d # es) = Suc (finishes es)"

definition no_Testing :: "ProxyConfig list \<Rightarrow> bool" where
  "no_Testing cs = list_all (\<lambda>c. status c \<noteq> Testing) cs"

text \<open>
  Two invariants of a run. The first holds for every configuration; the second says the
  run is live, with at most \<open>m\<close> probes pending, and needs at least one worker to have
  been launched.
\<close>

definition sched_inv :: "sched \<Rightarrow> bool" where
  "sched_inv s =
     (s_running s = int (length (s_inflight s))
      \<and> (s_isTesting s
         \<or> (s_inflight s = []
            \<and> (if s_stopFlag s then no_Testing (s_configs s) else s_queue s = []))))"

definition sched_live :: "int \<Rightarrow> sched \<Rightarrow> bool" where
  "sched_live m s =
     (s_running s = int (length (s_inflight s)) \<and> s_running s \<le> m
      \<and> s_isTesting s = (s_inflight s \<noteq> [])
      \<and> length (s_queue s) + length (s_inflight s) + s_testedCount s = s_total s)"

section \<open>The automatic re-test (the \<open>useEffect\<close> with \<open>startAutoTest\<close>, ConfigManager.tsx)\<close>

text \<open>
  One pass of the interval callback: nothing when the tab is hidden; otherwise the
  candidates of the inventory the callback was created with are probed one after the
  other, each result merged by \<open>id\<close> into the inventory as it then is. \<open>ds\<close> gives the
  draws of the probes in order; a shorter list is a pass cut short.
\<close>

definition autoTest_candidates :: "bool \<Rightarrow> ProxyConfig list \<Rightarrow> ProxyConfig list" where
  "autoTest_candidates onlyInactive configs =
     (if onlyInactive then filter (\<lambda>c. status c = Inactive \<or> status c = Untested) configs
      else configs)"

fun autoTest_pass ::
  "platform \<Rightarrow> jsnum \<Rightarrow> (ProxyConfig \<times> draws) list \<Rightarrow> ProxyConfig list \<Rightarrow> ProxyConfig list" where
  "autoTest_pass pf timeout [] cur = cur"
| "autoTest_pass pf timeout ((config, d) # rest) cur =
     autoTest_pass pf timeout rest
       (map (\<lambda>c. if ident c = ident config
                 then apply_result c (testConfig pf config timeout d) (d_now d) else c) cur)"

definition startAutoTest ::
  "platform \<Rightarrow> jsnum \<Rightarrow> bool \<Rightarrow> bool \<Rightarrow> ProxyConfig list \<Rightarrow> draws list \<Rightarrow> ProxyConfig list" where
  "startAutoTest pf timeout hidden onlyInactive configs ds =
     (if hidden then configs
      else autoTest_pass pf timeout (zip (autoTest_candidates onlyInactive configs) ds) configs)"

definition histories_capped :: "ProxyConfig list \<Rightarrow> bool" where
  "histories_capped cs = list_all (\<lambda>c. length (latencyHistory c) \<le> 10) cs"

section \<open>A sample platform\<close>

text \<open>
  The closed examples below run on one platform: the values of the browser's built-ins at
  the arguments the examples use. \<open>bnVsbA==\<close> is the base64 of \<open>null\<close>, \<open>e30=\<close> of
  \<open>{}\<close>, and the third key of the table that of the JSON text \<open>toString_port_json\<close>, an
  object with the keys \<open>add\<close> and \<open>port\<close> whose port is an object with the key
  \<open>toString\<close> (the double quote is \<open>CHR 0x22\<close>); the URL constructor rejects \<open>vless://h:x\<close>, whose port is not a number; a
  string without a percent sign is its own \<open>decodeURIComponent\<close>. Outside these arguments the values of the
  sample are arbitrary and no example reads them.
\<close>

definition toString_port_json :: string where
  "toString_port_json =
     ''{'' @ [CHR 0x22] @ ''add'' @ [CHR 0x22] @ '':'' @ [CHR 0x22] @ ''h.com'' @ [CHR 0x22]
     @ '','' @ [CHR 0x22] @ ''port'' @ [CHR 0x22] @ '':{'' @ [CHR 0x22] @ ''toString''
     @ [CHR 0x22] @ '':1}}''"

definition sample_atob :: "string \<Rightarrow> string option" where
  "sample_atob s =
     map_of [(''bnVsbA=='', ''null''), (''e30='', ''{}''),
             (''eyJhZGQiOiJoLmNvbSIsInBvcnQiOnsidG9TdHJpbmciOjF9fQ=='', toString_port_json)] s"

definition sample_JSON_parse :: "string \<Rightarrow> jsval option" where
  "sample_JSON_parse s =
     map_of [(''null'', Null), (''{}'', Obj []),
             (toString_port_json,
              Obj [(''add'', Str ''h.com''), (''port'', Obj [(''toString'', Num (Fin 1))])])] s"

definition sample_URL_new :: "string \<Rightarrow> url option" where
  "sample_URL_new s =
     map_of [(''vless://u@host.example:443?x=1#MyNode'',
              \<lparr>url_protocol = ''vless:'', url_hostname = ''host.example'',
               url_port = ''443'', url_hash = ''#MyNode''\<rparr>)] s"

definition sample_decodeURIComponent :: "string \<Rightarrow> string option" where
  "sample_decodeURIComponent s = (if CHR ''%'' \<in> set s then None else Some s)"

definition sample_StringToNumber :: "string \<Rightarrow> jsnum" where
  "sample_StringToNumber s =
     (case map_of [([], Fin 0), (''443'', Fin 443), (''300'', Fin 300)] s of
        None \<Rightarrow> NaN | Some n \<Rightarrow> n)"

definition sample_NumberToString :: "jsnum \<Rightarrow> string" where
  "sample_NumberToString n =
     (case n of NaN \<Rightarrow> ''NaN'' | PosInf \<Rightarrow> ''Infinity'' | NegInf \<Rightarrow> ''-Infinity''
      | Fin r \<Rightarrow> (if r = 0 then ''0'' else if r = 443 then ''443'' else ''300''))"

definition ascii_lower :: "char \<Rightarrow> char" where
  "ascii_lower c =
     (if 65 \<le> (of_char c :: nat) \<and> (of_char c :: nat) \<le> 90
      then char_of (of_char c + 32 :: nat) else c)"

definition sample_platform :: platform where
  "sample_platform =
     \<lparr>atob = sample_atob, JSON_parse = sample_JSON_parse, URL_new = sample_URL_new,
      decodeURIComponent = sample_decodeURIComponent,
      StringToNumber = sample_StringToNumber, NumberToString = sample_NumberToString,
      toLowerCase = map ascii_lower,
      COUNTRIES = [(''US'', ''United States''), (''DE'', ''Germany'')],
      uuidv4 = (\<lambda>n. ''id-'' @ replicate n (CHR ''i''))\<rparr>"

text \<open>A record as \<open>addProcessedConfigs\<close> creates it, and the draws of three probes.\<close>

definition sample_config :: ProxyConfig where
  "sample_config = new_config ''id-'' (Str ''MyNode'') ''vless://u@host.example:443?x=1#MyNode''"

definition draws_fast :: draws where
  "draws_fast = \<lparr>d_latency = 25 / 1000, d_fail = 0, d_speed = 1 / 2, d_geo = NotOk,
                  d_now = ''10:00:00''\<rparr>"

definition draws_slow :: draws where
  "draws_slow = \<lparr>d_latency = 947 / 1000, d_fail = 0, d_speed = 0, d_geo = NotOk,
                  d_now = ''10:00:01''\<rparr>"

definition draws_refused :: draws where
  "draws_refused = \<lparr>d_latency = 947 / 1000, d_fail = 9 / 10, d_speed = 0, d_geo = NotOk,
                     d_now = ''10:00:02''\<rparr>"

text \<open>Four records with latencies -1, 120, -1 and 30, and a view sorted by latency.\<close>

definition sample_inventory :: "ProxyConfig list" where
  "sample_inventory =
     [sample_config\<lparr>ident := ''a''\<rparr>,
      sample_config\<lparr>ident := ''b'', latency := 120, status := Active\<rparr>,
      sample_config\<lparr>ident := ''c'', status := Inactive\<rparr>,
      sample_config\<lparr>ident := ''d'', latency := 30, status := Active\<rparr>]"

definition sample_view :: "SortDirection \<Rightarrow> view_state" where
  "sample_view dir =
     \<lparr>statusFilter = None, protocolFilter = None, groupFilter = ''All'', searchTerm = [],
      sort_key = K_latency, sort_direction = dir\<rparr>"

definition fast_group :: SmartGroup where
  "fast_group = \<lparr>sg_id = ''g1'', sg_name = ''Fast'', sg_color = ''#4f46e5'',
                  sg_rules = [handleAddRule_newRule ''r1'']\<rparr>"

text \<open>Ten untested records, shown unfiltered; there are no smart groups.\<close>

definition ten_untested :: "ProxyConfig list" where
  "ten_untested = map (\<lambda>i. sample_config\<lparr>ident := uuidv4 sample_platform i\<rparr>) [0..<10]"

definition ten_view :: "(ProxyConfig \<times> string list) list" where
  "ten_view = map (\<lambda>c. (c, [])) ten_untested"

text \<open>
  Eight automatic passes over one record, each a single probe that is merged before the
  next begins: seven measure 100 ms, the eighth reports failure.
\<close>

definition eight_probed :: "ProxyConfig list" where
  "eight_probed =
     foldl (\<lambda>cs d. startAutoTest sample_platform (Fin 3000) False False cs [d])
       [sample_config] (replicate 7 draws_fast @ [draws_refused])"

section \<open>Properties of the link codec and the inventory\<close>

lemmas sample_defs =
  sample_platform_def sample_atob_def sample_JSON_parse_def sample_URL_new_def
  sample_decodeURIComponent_def sample_StringToNumber_def toString_port_json_def

lemmas codec_defs =
  parseConfig_def parseConfig_try_def parse_vmess_def parse_url_def try_catch_def throwing_def
  js_Number_def

subsection \<open>Decoding never raises\<close>

lemma parseConfig_total: "\<exists>p. parseConfig pf raw = Inr p"
  by (auto simp: parseConfig_def try_catch_def split: sum.splits option.splits)

lemma parseConfig_caught:
  assumes "parseConfig_try pf raw = Inl e"
  shows "parseConfig pf raw = Inr placeholder"
  using assms by (simp add: parseConfig_def try_catch_def)

lemma parseConfig_other_prefix:
  assumes "parseConfig_try pf raw = Inr None"
  shows "parseConfig pf raw = Inr placeholder"
  using assms by (simp add: parseConfig_def try_catch_def)

lemma make_config_total: "\<exists>c. make_config pf k raw = Inr c \<and> rawConfig c = raw"
proof -
  obtain p where "parseConfig pf raw = Inr p"
    using parseConfig_total by blast
  then show ?thesis
    by (simp add: make_config_def spread_parsed_def new_config_def)
qed

lemma map_throwing_total:
  assumes "\<And>k x. \<exists>y. f k x = Inr y \<and> g y = x"
  shows "\<exists>ys. map_throwing f k xs = Inr ys \<and> map g ys = xs"
proof (induction xs arbitrary: k)
  case Nil
  then show ?case by simp
next
  case (Cons x xs)
  obtain y where y: "f k x = Inr y" "g y = x"
    using assms by blast
  obtain ys where ys: "map_throwing f (Suc k) xs = Inr ys" "map g ys = xs"
    using Cons.IH by blast
  show ?case
    by (simp add: y ys)
qed

text \<open>
  The batch of ConfigManager.tsx never raises and loses no item: the inventory grows by
  one record for each raw string that passes the filter, in order.
\<close>

lemma addProcessedConfigs_total:
  "\<exists>cs. addProcessedConfigs pf k configs raws = Inr (configs @ cs, length cs)
        \<and> map rawConfig cs = fresh_raws configs raws"
proof -
  obtain cs where cs: "map_throwing (make_config pf) k (fresh_raws configs raws) = Inr cs"
      "map rawConfig cs = fresh_raws configs raws"
    using map_throwing_total [of "make_config pf" rawConfig] make_config_total by blast
  then show ?thesis
    by (auto simp: addProcessedConfigs_def)
qed

text \<open>An item whose parse throws becomes the placeholder record, whatever the platform.\<close>

lemma make_config_placeholder:
  assumes "parseConfig_try pf raw = Inl e"
  shows "\<exists>c. make_config pf k raw = Inr c \<and> name c = Str ''Unnamed Config''
           \<and> host c = Str ''unknown.host'' \<and> port c = Fin 0 \<and> protocol c = Unknown"
  using parseConfig_caught [OF assms]
  by (simp add: make_config_def spread_parsed_def new_config_def placeholder_def)

text \<open>
  C1. Decoding is total, and a batch degrades per item. This holds for \<open>parseConfig\<close> and
  \<open>addProcessedConfigs\<close> of ConfigManager.tsx (the lemmas above). The batch of App.tsx,
  which the comment in its parser wants consistent with ConfigManager's, calls the URL
  constructor outside any \<open>try\<close>: one item that is not a URL raises a TypeError out of
  the whole batch, and the well-formed item after it is not added.
\<close>

theorem share_link_batch_aborts:
  "addProcessedConfigs_App sample_platform 0 []
     [''vless://h:x'', ''vless://u@host.example:443?x=1#MyNode''] = Inl TypeError"
  by (simp add: addProcessedConfigs_App_def fresh_raws_def js_trim_def is_ws_def
      make_config_App_def parseConfig_App_def throwing_def sample_defs)

lemma ConfigManager_batch_degrades:
  "map_sum (\<lambda>e. e) (\<lambda>r. (map (\<lambda>c. (name c, host c, port c, protocol c)) (fst r), snd r))
     (addProcessedConfigs sample_platform 0 []
        [''vless://h:x'', ''vless://u@host.example:443?x=1#MyNode''])
   = Inr ([(Str ''Unnamed Config'', Str ''unknown.host'', Fin 0, Unknown),
           (Str ''MyNode'', Str ''host.example'', Fin 443, Vless)], 2)"
  by (simp add: addProcessedConfigs_def fresh_raws_def js_trim_def is_ws_def make_config_def
      codec_defs spread_parsed_def new_config_def placeholder_def sample_defs)

subsection \<open>Deduplication\<close>

text \<open>
  The filter compares each raw string with the inventory as it was before the call, not
  with the earlier items of the same batch.
\<close>

lemma fresh_raws_not_in_inventory:
  "set (fresh_raws configs raws) \<inter> set (map rawConfig configs) = {}"
  by (auto simp: fresh_raws_def)

lemma second_batch_adds_nothing:
  assumes "addProcessedConfigs pf k configs raws = Inr (configs', n)"
  shows "\<exists>m. addProcessedConfigs pf m configs' raws = Inr (configs', 0)"
proof -
  obtain cs where cs: "addProcessedConfigs pf k configs raws = Inr (configs @ cs, length cs)"
      "map rawConfig cs = fresh_raws configs raws"
    using addProcessedConfigs_total by blast
  have "fresh_raws (configs @ cs) raws = []"
    using cs(2) by (auto simp: fresh_raws_def filter_empty_conv)
  then show ?thesis
    using assms cs(1) by (auto simp: addProcessedConfigs_def)
qed

lemma distinct_batch_keeps_distinct:
  assumes "distinct (map rawConfig configs)" and "distinct raws"
    and "addProcessedConfigs pf k configs raws = Inr (configs', n)"
  shows "distinct (map rawConfig configs')"
proof -
  obtain cs where cs: "addProcessedConfigs pf k configs raws = Inr (configs @ cs, length cs)"
      "map rawConfig cs = fresh_raws configs raws"
    using addProcessedConfigs_total by blast
  have "distinct (fresh_raws configs raws)"
    using assms(2) by (simp add: fresh_raws_def)
  then show ?thesis
    using assms(1,3) cs by (auto simp: fresh_raws_def)
qed

text \<open>
  C2. Inserting the same raw string twice yields one record. Across two batches it does
  (\<open>second_batch_adds_nothing\<close>); twice within one batch it does not: both copies pass the
  filter, and the inventory ends with two records of the same \<open>rawConfig\<close>.
\<close>

theorem same_batch_duplicate_kept:
  "\<exists>cs. addProcessedConfigs pf k [] [''x'', ''x''] = Inr (cs, 2)
        \<and> map rawConfig cs = [''x'', ''x'']"
  by (simp add: addProcessedConfigs_def fresh_raws_def js_trim_def is_ws_def make_config_def
      codec_defs spread_parsed_def new_config_def)

subsection \<open>A vmess link whose JSON lacks fields\<close>

text \<open>
  C10, as the claim states it, fails where the payload is the JSON text \<open>null\<close>: base64
  and JSON both succeed, and the read of \<open>data.ps\<close> throws, so the placeholder is
  returned.
\<close>

theorem vmess_null_payload_placeholder:
  "atob sample_platform ''bnVsbA=='' = Some ''null''
   \<and> JSON_parse sample_platform ''null'' = Some Null
   \<and> parseConfig sample_platform ''vmess://bnVsbA=='' = Inr placeholder"
  by (simp add: codec_defs sample_defs)

lemma get_prop_not_nullish:
  assumes "\<not> nullish data"
  shows "\<exists>v. get_prop data k = Inr v"
  using assms by (cases data) (auto simp: nullish_def split: option.splits)

lemma parse_vmess_payload:
  "parse_vmess pf raw =
     (case vmess_payload pf raw of
        None \<Rightarrow> Inl (if atob pf (replace_first ''vmess://'' [] raw) = None
                     then InvalidCharacterError else SyntaxError)
      | Some data \<Rightarrow>
          if nullish data \<or> conversion_throws (prop_or_undefined data ''port'') then Inl TypeError
          else Inr \<lparr>p_name = Some (if truthy (prop_or_undefined data ''ps'')
                                    then prop_or_undefined data ''ps'' else Str ''Vmess Config''),
                    p_protocol = Some Vmess,
                    p_host = Some (prop_or_undefined data ''add''),
                    p_port = Some (number_of pf (prop_or_undefined data ''port''))\<rparr>)"
proof (cases "vmess_payload pf raw")
  case None
  then show ?thesis
    by (auto simp: parse_vmess_def vmess_payload_def throwing_def split: option.splits)
next
  case (Some data)
  show ?thesis
  proof (cases "nullish data")
    case True
    then show ?thesis
      using Some
      by (auto simp: parse_vmess_def vmess_payload_def throwing_def nullish_def
          split: option.splits)
  next
    case False
    obtain a b c where "get_prop data ''ps'' = Inr a" "get_prop data ''add'' = Inr b"
        "get_prop data ''port'' = Inr c"
      using get_prop_not_nullish [OF False] by blast
    then show ?thesis
      using Some False
      by (auto simp: parse_vmess_def vmess_payload_def throwing_def prop_or_undefined_def
          js_Number_def split: option.splits)
  qed
qed

text \<open>
  The port of the payload \<open>toString_port_json\<close> is an object with an own key
  \<open>toString\<close>: \<open>Number(data.port)\<close> raises inside the \<open>try\<close>, and the placeholder is
  returned although the JSON is an object with a host.
\<close>

lemma vmess_port_conversion_throws:
  "vmess_payload sample_platform ''vmess://eyJhZGQiOiJoLmNvbSIsInBvcnQiOnsidG9TdHJpbmciOjF9fQ==''
     = Some (Obj [(''add'', Str ''h.com''), (''port'', Obj [(''toString'', Num (Fin 1))])])
   \<and> parseConfig sample_platform ''vmess://eyJhZGQiOiJoLmNvbSIsInBvcnQiOnsidG9TdHJpbmciOjF9fQ==''
     = Inr placeholder"
  by (simp add: vmess_payload_def codec_defs sample_defs)

text \<open>
  C10, amended. For a \<open>vmess://\<close> link, the placeholder is returned exactly when the
  base64 layer throws, the JSON layer throws, the JSON value is \<open>null\<close>, or the
  conversion \<open>Number(data.port)\<close> throws (the port is an object with an own key
  \<open>toString\<close>, or an array that holds one). Otherwise the record built from the link
  has protocol Vmess, its host is \<open>data.add\<close> and its port is \<open>Number(data.port)\<close>, in
  place of the defaults \<open>N/A\<close> and \<open>0\<close>: host \<open>undefined\<close> where \<open>add\<close> is missing,
  port NaN where \<open>port\<close> is missing.
\<close>

theorem vmess_missing_fields:
  assumes "startsWith raw ''vmess://''"
  shows "(parseConfig pf raw = Inr placeholder
            \<longleftrightarrow> (case vmess_payload pf raw of
                   None \<Rightarrow> True
                 | Some data \<Rightarrow> nullish data \<or> conversion_throws (prop_or_undefined data ''port'')))
       \<and> (\<forall>data. vmess_payload pf raw = Some data \<and> \<not> nullish data
                 \<and> \<not> conversion_throws (prop_or_undefined data ''port'') \<longrightarrow>
             (\<exists>c. make_config pf k raw = Inr c \<and> protocol c = Vmess
                \<and> host c = prop_or_undefined data ''add''
                \<and> js_Number pf (prop_or_undefined data ''port'') = Inr (port c)
                \<and> (get_prop data ''add'' = Inr Undefined \<longrightarrow> host c = Undefined)
                \<and> (get_prop data ''port'' = Inr Undefined \<longrightarrow> port c = NaN)))"
proof -
  have body: "parseConfig_try pf raw = map_sum (\<lambda>e. e) Some (parse_vmess pf raw)"
    using assms by (simp add: parseConfig_try_def)
  show ?thesis
  proof (cases "vmess_payload pf raw")
    case None
    then show ?thesis
      by (simp add: parseConfig_def try_catch_def body parse_vmess_payload)
  next
    case (Some data)
    show ?thesis
    proof (cases "nullish data \<or> conversion_throws (prop_or_undefined data ''port'')")
      case True
      then show ?thesis
        using Some by (auto simp: parseConfig_def try_catch_def body parse_vmess_payload)
    next
      case False
      then show ?thesis
        using Some
        by (auto simp: parseConfig_def try_catch_def body parse_vmess_payload placeholder_def
            make_config_def spread_parsed_def new_config_def prop_or_undefined_def js_Number_def)
    qed
  qed
qed

theorem vmess_missing_fields_witness:
  "startsWith ''vmess://e30='' ''vmess://''
   \<and> vmess_payload sample_platform ''vmess://e30='' = Some (Obj [])
   \<and> parseConfig sample_platform ''vmess://e30='' \<noteq> Inr placeholder
   \<and> (\<exists>c. make_config sample_platform 0 ''vmess://e30='' = Inr c \<and> protocol c = Vmess
          \<and> host c = Undefined \<and> port c = NaN)"
proof -
  have p: "vmess_payload sample_platform ''vmess://e30='' = Some (Obj [])"
    by (simp add: vmess_payload_def sample_defs)
  have s: "startsWith ''vmess://e30='' ''vmess://''"
    by simp
  show ?thesis
    using vmess_missing_fields [OF s, of sample_platform 0] p
    by (auto simp: nullish_def prop_or_undefined_def)
qed

section \<open>Properties of the tester\<close>

lemmas tester_defs = testConfig_def probe_failed_def testLatency_def Math_round_def num_gt_def

lemmas draws_defs = draws_fast_def draws_slow_def draws_refused_def sample_config_def new_config_def

lemma testLatency_range:
  assumes "valid_draws d"
  shows "50 \<le> testLatency d \<and> testLatency d \<le> 2049"
proof -
  have "0 \<le> d_latency d * 2000" and "d_latency d * 2000 < 2000"
    using assms by (simp_all add: valid_draws_def)
  then have "0 \<le> \<lfloor>d_latency d * 2000\<rfloor>" and "\<lfloor>d_latency d * 2000\<rfloor> < 2000"
    by (simp_all add: floor_less_iff)
  then show ?thesis
    by (simp add: testLatency_def)
qed

subsection \<open>The failure branch\<close>

text \<open>
  C5. A probe whose latency exceeds the timeout, or that reports failure, resolves to
  status Inactive, latency -1, score 0, speed 0 and the history with -1 prepended and cut
  to 10; the record it is merged into ends with these values.
\<close>

theorem failure_branch:
  assumes "num_gt (Fin (real_of_int (testLatency d))) timeout \<or> d_fail d > 8 / 10"
  shows "testConfig pf config timeout d =
           \<lparr>r_status = Inactive, r_latency = - 1, r_score = 0, r_speed = 0,
            r_latencyHistory = take 10 (- 1 # latencyHistory config), r_geo = None\<rparr>
       \<and> status (probe pf timeout config d) = Inactive
       \<and> latency (probe pf timeout config d) = - 1
       \<and> score (probe pf timeout config d) = 0
       \<and> speed (probe pf timeout config d) = 0
       \<and> latencyHistory (probe pf timeout config d) = take 10 (- 1 # latencyHistory config)
       \<and> length (latencyHistory (probe pf timeout config d)) \<le> 10"
  using assms by (simp add: testConfig_def probe_failed_def probe_def apply_result_def)

theorem failure_branch_witness:
  "d_fail draws_refused > 8 / 10
   \<and> testConfig sample_platform sample_config (Fin 3000) draws_refused =
       \<lparr>r_status = Inactive, r_latency = - 1, r_score = 0, r_speed = 0,
        r_latencyHistory = [- 1], r_geo = None\<rparr>
   \<and> status (probe sample_platform (Fin 3000) sample_config draws_refused) = Inactive"
proof -
  have h: "num_gt (Fin (real_of_int (testLatency draws_refused))) (Fin 3000)
           \<or> d_fail draws_refused > 8 / 10"
    by (simp add: draws_defs)
  show ?thesis
    using failure_branch [OF h, of sample_platform sample_config]
    by (simp add: draws_defs)
qed

subsection \<open>The success branch\<close>

text \<open>
  C6, as the claim states it, fails twice at latency 1944 under a timeout of 3000. With
  jitter draw 0 the speed is \<open>round(56 - 5.6) = 50\<close>, below 90% of the base speed 56;
  and when the probe reports failure the status is Inactive although the latency is
  within the timeout.
\<close>

theorem speed_outside_ten_percent:
  "r_latency (testConfig sample_platform sample_config (Fin 3000) draws_slow) = 1944
   \<and> r_speed (testConfig sample_platform sample_config (Fin 3000) draws_slow) = 50
   \<and> max 50 (2000 - 1944) = (56 :: int)
   \<and> \<not> (\<bar>real_of_int (r_speed (testConfig sample_platform sample_config (Fin 3000) draws_slow))
           - 56\<bar> \<le> 56 / 10)
   \<and> testLatency draws_refused = 1944
   \<and> r_status (testConfig sample_platform sample_config (Fin 3000) draws_refused) = Inactive"
  by (simp add: tester_defs draws_defs)

lemma Math_round_bounds: "x - 1 / 2 < real_of_int (Math_round x) \<and> real_of_int (Math_round x) \<le> x + 1 / 2"
  unfolding Math_round_def by linarith

lemma score_formula: "max 0 (Math_round (100 - real_of_int l / 20)) = max 0 ((2010 - l) div 20)"
proof -
  have "100 - real_of_int l / 20 + 1 / 2 = real_of_int (2010 - l) / real_of_int 20"
    by simp
  then have "Math_round (100 - real_of_int l / 20) = (2010 - l) div 20"
    unfolding Math_round_def by (simp only: floor_divide_of_int_eq)
  then show ?thesis by simp
qed

text \<open>
  C6, amended. When the latency does not exceed the timeout and the probe does not report
  failure, the result has status Slow above 1000 ms and Active otherwise, score
  \<open>max(0, round(100 - latency/20))\<close> within 0 and 100, and a speed that is the rounding
  of a value within 10% of \<open>max(50, 2000 - latency)\<close>: it differs from that base by at
  most a tenth of it plus one half.
\<close>

theorem success_branch:
  assumes "valid_draws d"
    and "\<not> num_gt (Fin (real_of_int (testLatency d))) timeout" and "d_fail d \<le> 8 / 10"
  shows "r_status (testConfig pf config timeout d) = (if testLatency d > 1000 then Slow else Active)
       \<and> r_latency (testConfig pf config timeout d) = testLatency d
       \<and> r_score (testConfig pf config timeout d)
           = max 0 (Math_round (100 - real_of_int (testLatency d) / 20))
       \<and> 0 \<le> r_score (testConfig pf config timeout d)
       \<and> r_score (testConfig pf config timeout d) \<le> 100
       \<and> \<bar>real_of_int (r_speed (testConfig pf config timeout d))
            - real_of_int (max 50 (2000 - testLatency d))\<bar>
           \<le> real_of_int (max 50 (2000 - testLatency d)) / 10 + 1 / 2
       \<and> status (probe pf timeout config d) = (if testLatency d > 1000 then Slow else Active)
       \<and> score (probe pf timeout config d) = r_score (testConfig pf config timeout d)
       \<and> speed (probe pf timeout config d) = r_speed (testConfig pf config timeout d)"
proof -
  define l where "l = testLatency d"
  define b where "b = max 50 (2000 - l)"
  define x where "x = real_of_int b + (d_speed d * real_of_int b * (2 / 10) - real_of_int b * (1 / 10))"
  have nf: "\<not> probe_failed timeout d"
    using assms(2,3) by (simp add: probe_failed_def)
  have l: "50 \<le> l" "l \<le> 2049"
    using testLatency_range [OF assms(1)] by (simp_all add: l_def)
  have res: "testConfig pf config timeout d =
      \<lparr>r_status = (if l > 1000 then Slow else Active), r_latency = l,
       r_score = max 0 (Math_round (100 - real_of_int l / 20)), r_speed = Math_round x,
       r_latencyHistory = take 10 (l # latencyHistory config), r_geo = geo_keys pf (d_geo d)\<rparr>"
    using nf by (simp add: testConfig_def Let_def l_def b_def x_def)
  have sc: "max 0 (Math_round (100 - real_of_int l / 20)) \<le> 100"
    unfolding score_formula using l by simp
  have b: "50 \<le> b"
    by (simp add: b_def)
  have s: "0 \<le> d_speed d" "d_speed d < 1"
    using assms(1) by (simp_all add: valid_draws_def)
  have j: "0 \<le> d_speed d * real_of_int b" "d_speed d * real_of_int b \<le> 1 * real_of_int b"
    using s b by (simp_all add: mult_right_mono)
  have "x = real_of_int b * (9 / 10) + (d_speed d * real_of_int b) * (2 / 10)"
    by (simp add: x_def algebra_simps)
  then have x: "real_of_int b - real_of_int b / 10 \<le> x" "x \<le> real_of_int b + real_of_int b / 10"
    using j by linarith+
  have sp: "\<bar>real_of_int (Math_round x) - real_of_int b\<bar> \<le> real_of_int b / 10 + 1 / 2"
    using Math_round_bounds [of x] x by linarith
  show ?thesis
    using sc sp
    by (simp add: res probe_def apply_result_def Let_def l_def [symmetric] b_def [symmetric]
        split: option.splits prod.splits)
qed

theorem success_branch_witness:
  "valid_draws draws_fast
   \<and> testLatency draws_fast = 100
   \<and> r_status (testConfig sample_platform sample_config (Fin 3000) draws_fast) = Active
   \<and> r_score (testConfig sample_platform sample_config (Fin 3000) draws_fast) = 95
   \<and> status (probe sample_platform (Fin 3000) sample_config draws_fast) = Active"
proof -
  have v: "valid_draws draws_fast"
    by (simp add: valid_draws_def draws_defs)
  have l: "testLatency draws_fast = 100"
    by (simp add: testLatency_def draws_defs)
  have t: "\<not> num_gt (Fin (real_of_int (testLatency draws_fast))) (Fin 3000)"
    by (simp add: l num_gt_def)
  have f: "d_fail draws_fast \<le> 8 / 10"
    by (simp add: draws_defs)
  show ?thesis
    using success_branch [OF v t f, of sample_platform sample_config] v l
    by (simp add: Math_round_def)
qed

subsection \<open>The latency history\<close>

lemma probe_history:
  "latencyHistory (probe pf timeout c d) = take 10 (probe_sample timeout d # latencyHistory c)
   \<and> latency (probe pf timeout c d) = probe_sample timeout d"
  by (simp add: probe_def apply_result_def testConfig_def probe_sample_def Let_def
      split: option.splits prod.splits)

lemma take_Cons_take: "take n (x # take n ys) = take n (x # ys)"
  by (cases n) (simp_all add: min_def)

lemma sequential_probes_snoc:
  "sequential_probes pf timeout c (ds @ [d])
     = probe pf timeout (sequential_probes pf timeout c ds) d"
  by (simp add: sequential_probes_def)

lemma sequential_probes_history:
  "ds \<noteq> [] \<or> length (latencyHistory c) \<le> 10 \<Longrightarrow>
   latencyHistory (sequential_probes pf timeout c ds)
     = take 10 (rev (map (probe_sample timeout) ds) @ latencyHistory c)"
proof (induction ds rule: rev_induct)
  case Nil
  then show ?case by (simp add: sequential_probes_def)
next
  case (snoc d ds)
  show ?case
  proof (cases "ds = []")
    case True
    then show ?thesis
      by (simp add: sequential_probes_snoc probe_history sequential_probes_def)
  next
    case False
    then have "latencyHistory (sequential_probes pf timeout c ds)
        = take 10 (rev (map (probe_sample timeout) ds) @ latencyHistory c)"
      using snoc.IH by simp
    then show ?thesis
      by (simp add: sequential_probes_snoc probe_history take_Cons_take del: take_append)
  qed
qed

lemma merged_history:
  "latencyHistory (apply_result c (testConfig pf config timeout d) now)
     = take 10 (probe_sample timeout d # latencyHistory config)"
  by (simp add: apply_result_def testConfig_def probe_sample_def Let_def
      split: option.splits prod.splits)

lemma merge_keeps_cap:
  assumes "histories_capped cs"
  shows "histories_capped (map (\<lambda>c. if ident c = ident config
           then apply_result c (testConfig pf config timeout d) now else c) cs)"
  using assms by (induction cs) (simp_all add: histories_capped_def merged_history)

text \<open>The automatic pass and every step of a manual run keep all histories within 10.\<close>

lemma autoTest_pass_cap:
  assumes "histories_capped cur"
  shows "histories_capped (autoTest_pass pf timeout cds cur)"
  using assms
proof (induction cds arbitrary: cur)
  case Nil
  then show ?case by simp
next
  case (Cons cd cds)
  obtain config d where cd: "cd = (config, d)"
    by (cases cd)
  show ?case
    unfolding cd using Cons.IH [OF merge_keeps_cap [OF Cons.prems]] by simp
qed

lemma startAutoTest_cap:
  assumes "histories_capped configs"
  shows "histories_capped (startAutoTest pf timeout hidden onlyInactive configs ds)"
  using assms by (simp add: startAutoTest_def autoTest_pass_cap)

text \<open>
  Probes of one record that do not overlap: the history holds the samples newest first,
  cut to 10. Its length is at most 10, its first element is the sample of the last probe
  (which is also the record's latency), and from 10 probes on its length is exactly 10,
  the older samples being dropped. And whatever record a result is merged into, its
  history is then the sample before the history the probe was started with, cut to 10.
\<close>

lemma sequential_history:
  assumes "ds \<noteq> [] \<or> length (latencyHistory c) \<le> 10"
  shows "length (latencyHistory (sequential_probes pf timeout c ds)) \<le> 10
       \<and> latencyHistory (sequential_probes pf timeout c ds)
           = take 10 (rev (map (probe_sample timeout) ds) @ latencyHistory c)
       \<and> (ds \<noteq> [] \<longrightarrow>
             hd (latencyHistory (sequential_probes pf timeout c ds)) = probe_sample timeout (last ds)
           \<and> hd (latencyHistory (sequential_probes pf timeout c ds)) = latency (sequential_probes pf timeout c ds))
       \<and> (10 \<le> length ds \<longrightarrow>
             length (latencyHistory (sequential_probes pf timeout c ds)) = 10
           \<and> latencyHistory (sequential_probes pf timeout c ds)
               = take 10 (rev (map (probe_sample timeout) ds)))
       \<and> length (latencyHistory (apply_result c' (testConfig pf config timeout d) now)) \<le> 10
       \<and> hd (latencyHistory (apply_result c' (testConfig pf config timeout d) now))
           = probe_sample timeout d"
proof -
  have h: "latencyHistory (sequential_probes pf timeout c ds)
      = take 10 (rev (map (probe_sample timeout) ds) @ latencyHistory c)"
    using sequential_probes_history [OF assms] .
  have first: "hd (latencyHistory (sequential_probes pf timeout c ds)) = probe_sample timeout (last ds)
      \<and> hd (latencyHistory (sequential_probes pf timeout c ds)) = latency (sequential_probes pf timeout c ds)"
    if "ds \<noteq> []"
  proof -
    from that obtain es e where ds: "ds = es @ [e]"
      by (cases ds rule: rev_cases) auto
    show ?thesis
      by (simp add: ds sequential_probes_snoc probe_history)
  qed
  have len: "length (latencyHistory (sequential_probes pf timeout c ds)) \<le> 10"
    by (simp add: h del: take_append)
  have full: "length (latencyHistory (sequential_probes pf timeout c ds)) = 10
      \<and> latencyHistory (sequential_probes pf timeout c ds) = take 10 (rev (map (probe_sample timeout) ds))"
    if "10 \<le> length ds"
    using that by (simp add: h)
  have one: "length (latencyHistory (apply_result c' (testConfig pf config timeout d) now)) \<le> 10
      \<and> hd (latencyHistory (apply_result c' (testConfig pf config timeout d) now))
           = probe_sample timeout d"
    by (simp add: merged_history)
  show ?thesis
    using h first len full one by blast
qed

lemma sequential_history_example:
  "latencyHistory (sequential_probes sample_platform (Fin 3000) sample_config
      [draws_fast, draws_slow, draws_refused]) = [- 1, 1944, 100]
   \<and> latencyHistory (sequential_probes sample_platform (Fin 3000) sample_config
        (replicate 11 draws_fast @ [draws_refused]))
      = [- 1, 100, 100, 100, 100, 100, 100, 100, 100, 100]"
proof -
  have s: "probe_sample (Fin 3000) draws_fast = 100" "probe_sample (Fin 3000) draws_slow = 1944"
      "probe_sample (Fin 3000) draws_refused = - 1"
    by (simp_all add: probe_sample_def probe_failed_def testLatency_def num_gt_def draws_defs)
  have e: "latencyHistory sample_config = []"
    by (simp add: draws_defs)
  have n: "replicate 11 draws_fast @ [draws_refused] \<noteq> []
           \<or> length (latencyHistory sample_config) \<le> 10"
    by simp
  have m: "[draws_fast, draws_slow, draws_refused] \<noteq> []
           \<or> length (latencyHistory sample_config) \<le> 10"
    by simp
  show ?thesis
    using sequential_history [OF m, of sample_platform "Fin 3000"]
      sequential_history [OF n, of sample_platform "Fin 3000"]
    by (simp add: s e numeral_eq_Suc)
qed

section \<open>Properties of the rule engine\<close>

lemma filter_throwing_mem:
  assumes "filter_throwing p xs = Inr ys" and "x \<in> set xs" and "p x = Inr True"
  shows "x \<in> set ys"
  using assms(1,2)
proof (induction xs arbitrary: ys)
  case Nil
  then show ?case by simp
next
  case (Cons y xs)
  obtain b where b: "p y = Inr b"
    using Cons.prems(1) by (cases "p y") simp_all
  obtain zs where zs: "filter_throwing p xs = Inr zs"
    using Cons.prems(1) b by (cases "filter_throwing p xs") simp_all
  have ys: "ys = (if b then y # zs else zs)"
    using Cons.prems(1) b zs by simp
  show ?case
  proof (cases "x = y")
    case True
    then have "b"
      using b assms(3) by simp
    then show ?thesis
      using True ys by simp
  next
    case False
    then have "x \<in> set zs"
      using Cons.IH [OF zs] Cons.prems(2) by simp
    then show ?thesis
      using ys by simp
  qed
qed

text \<open>
  A rule raises only in a conversion: it does not when neither the value of the field
  nor the value of the rule is an object with an own key \<open>toString\<close> (or an array that
  holds one). The values of the numeric fields and the strings never are.
\<close>

lemma evaluateRule_total:
  assumes "\<not> conversion_throws (field_value c (rule_field rule))"
    and "\<not> conversion_throws (rule_value rule)"
  shows "\<exists>b. evaluateRule pf c rule = Inr b"
proof -
  have conv: "js_Number pf (field_value c (rule_field rule))
                = Inr (number_of pf (field_value c (rule_field rule)))"
      "js_Number pf (rule_value rule) = Inr (number_of pf (rule_value rule))"
      "js_String pf (field_value c (rule_field rule))
                = Inr (string_of pf (field_value c (rule_field rule)))"
      "js_String pf (rule_value rule) = Inr (string_of pf (rule_value rule))"
    using assms by (simp_all add: js_Number_def js_String_def)
  show ?thesis
    unfolding evaluateRule_def Let_def conv
    by (simp only: sum.case if_distrib [of "\<lambda>x. \<exists>b. x = Inr b"] sum.inject simp_thms) auto
qed

lemma every_throwing_total:
  assumes "\<And>x. x \<in> set xs \<Longrightarrow> \<exists>b. p x = Inr b"
  shows "\<exists>b. every_throwing p xs = Inr b"
  using assms
proof (induction xs)
  case Nil
  show ?case by auto
next
  case (Cons y xs)
  obtain b where b: "p y = Inr b"
    using Cons.prems [of y] by auto
  obtain b' where b': "every_throwing p xs = Inr b'"
    using Cons.IH Cons.prems by auto
  show ?case
    using b b' by (cases b) auto
qed

lemma filter_throwing_total:
  assumes "\<And>x. x \<in> set xs \<Longrightarrow> \<exists>b. p x = Inr b"
  shows "\<exists>ys. filter_throwing p xs = Inr ys"
  using assms
proof (induction xs)
  case Nil
  then show ?case by simp
next
  case (Cons y xs)
  obtain b where b: "p y = Inr b"
    using Cons.prems [of y] by auto
  obtain ys where ys: "filter_throwing p xs = Inr ys"
    using Cons.IH Cons.prems by auto
  show ?case
    using b ys by simp
qed

text \<open>
  C9. The rule engine reads the sentinel as the number -1. A rule \<open>latency less_than V\<close>
  whose value converts to a number above -1 holds for every record with latency -1; the
  default rule \<open>latency less_than 300\<close> is one, so a smart group made of it lists the
  failed and the untested records too: alone, and among any groups whose rules do not
  raise for the record, as is the case when no value they convert holds a key
  \<open>toString\<close>.
\<close>

theorem sentinel_passes_less_than:
  assumes "latency c = - 1"
    and "rule_field rule = F_latency" and "rule_operator rule = less_than"
    and "js_Number pf (rule_value rule) = Inr v" and "num_lt (Fin (- 1)) v"
  shows "evaluateRule pf c rule = Inr True
       \<and> evaluateRule pf c (handleAddRule_newRule uid) = Inr True
       \<and> (sg_rules sg = [handleAddRule_newRule uid] \<longrightarrow> matchedGroups pf [sg] c = Inr [sg_name sg])
       \<and> (sg \<in> set smartGroups \<and> sg_rules sg = [handleAddRule_newRule uid]
            \<longrightarrow> (case matchedGroups pf smartGroups c of
                   Inl e \<Rightarrow> True
                 | Inr gs \<Rightarrow> sg_name sg \<in> set gs))
       \<and> (sg \<in> set smartGroups \<and> sg_rules sg = [handleAddRule_newRule uid]
          \<and> (\<forall>g \<in> set smartGroups. \<forall>r \<in> set (sg_rules g).
                 \<not> conversion_throws (field_value c (rule_field r))
               \<and> \<not> conversion_throws (rule_value r))
            \<longrightarrow> (\<exists>gs. matchedGroups pf smartGroups c = Inr gs \<and> sg_name sg \<in> set gs))"
proof -
  have n: "v \<noteq> NaN"
    using assms(5) by (cases v) simp_all
  have r: "evaluateRule pf c rule = Inr True"
    using assms n by (simp add: evaluateRule_def numFields_def isNaN_def Let_def js_Number_def)
  have d: "evaluateRule pf c (handleAddRule_newRule uid) = Inr True"
    using assms(1)
    by (simp add: evaluateRule_def numFields_def isNaN_def Let_def handleAddRule_newRule_def
        js_Number_def)
  have alone: "matchedGroups pf [sg] c = Inr [sg_name sg]"
    if "sg_rules sg = [handleAddRule_newRule uid]"
    using that d by (simp add: matchedGroups_def)
  have among: "sg_name sg \<in> set gs"
    if mem: "sg \<in> set smartGroups" and one: "sg_rules sg = [handleAddRule_newRule uid]"
      and res: "matchedGroups pf smartGroups c = Inr gs" for gs
  proof -
    obtain ys where ys: "filter_throwing
          (\<lambda>sg. every_throwing (\<lambda>rule. evaluateRule pf c rule) (sg_rules sg)) smartGroups = Inr ys"
        and gs: "gs = map sg_name ys"
      using res by (auto simp: matchedGroups_def map_sum_def split: sum.splits)
    have "every_throwing (\<lambda>rule. evaluateRule pf c rule) (sg_rules sg) = Inr True"
      using one d by simp
    then have "sg \<in> set ys"
      by (rule filter_throwing_mem [OF ys mem])
    then show ?thesis
      by (simp add: gs)
  qed
  have listed: "\<exists>gs. matchedGroups pf smartGroups c = Inr gs \<and> sg_name sg \<in> set gs"
    if mem: "sg \<in> set smartGroups" and one: "sg_rules sg = [handleAddRule_newRule uid]"
      and conv: "\<forall>g \<in> set smartGroups. \<forall>r \<in> set (sg_rules g).
                 \<not> conversion_throws (field_value c (rule_field r))
               \<and> \<not> conversion_throws (rule_value r)"
  proof -
    have "\<exists>b. every_throwing (\<lambda>rule. evaluateRule pf c rule) (sg_rules g) = Inr b"
      if "g \<in> set smartGroups" for g
    proof (rule every_throwing_total)
      fix x assume "x \<in> set (sg_rules g)"
      then have "\<not> conversion_throws (field_value c (rule_field x))"
          "\<not> conversion_throws (rule_value x)"
        using conv that by auto
      then show "\<exists>b. evaluateRule pf c x = Inr b"
        by (rule evaluateRule_total)
    qed
    then have "\<exists>ys. filter_throwing
          (\<lambda>sg. every_throwing (\<lambda>rule. evaluateRule pf c rule) (sg_rules sg)) smartGroups = Inr ys"
      by (intro filter_throwing_total) simp
    then obtain gs where gs: "matchedGroups pf smartGroups c = Inr gs"
      by (auto simp: matchedGroups_def)
    then show ?thesis
      using among [OF mem one gs] by simp
  qed
  have cases_form: "(case matchedGroups pf smartGroups c of
                   Inl e \<Rightarrow> True
                 | Inr gs \<Rightarrow> sg_name sg \<in> set gs)"
    if "sg \<in> set smartGroups" and "sg_rules sg = [handleAddRule_newRule uid]"
    using among [OF that] by (cases "matchedGroups pf smartGroups c") simp_all
  show ?thesis
    using r d alone cases_form listed by blast
qed

theorem sentinel_passes_less_than_witness:
  "latency sample_config = - 1
   \<and> evaluateRule sample_platform sample_config (handleAddRule_newRule ''r1'') = Inr True
   \<and> matchedGroups sample_platform [fast_group] sample_config = Inr [''Fast'']"
proof -
  have l: "latency sample_config = - 1"
    by (simp add: sample_config_def new_config_def)
  have f: "rule_field (handleAddRule_newRule ''r1'') = F_latency"
      "rule_operator (handleAddRule_newRule ''r1'') = less_than"
      "js_Number sample_platform (rule_value (handleAddRule_newRule ''r1'')) = Inr (Fin 300)"
      "num_lt (Fin (- 1)) (Fin 300)"
    by (simp_all add: handleAddRule_newRule_def js_Number_def)
  have g: "sg_rules fast_group = [handleAddRule_newRule ''r1'']" "sg_name fast_group = ''Fast''"
    by (simp_all add: fast_group_def)
  show ?thesis
    using sentinel_passes_less_than [OF l f, of "''r1''" fast_group] g l
    by simp
qed

section \<open>Properties of the query pipeline\<close>

lemma no_groups: "configsWithSmartGroups pf [] cs = Inr (map (\<lambda>c. (c, [])) cs)"
proof -
  have "map_throwing (\<lambda>k c. Inr (c, [])) n cs = Inr (map (\<lambda>c. (c, [])) cs)" for n :: nat
    by (induction cs arbitrary: n) simp_all
  then show ?thesis
    by (simp add: configsWithSmartGroups_def matchedGroups_def)
qed

text \<open>
  A comparator that never raises and orders its arguments consistently: the sort returns
  the elements of the list in an order the comparator agrees with.
\<close>

lemma insert_by_sorted:
  assumes never: "\<And>a b. \<exists>r. cmp a b = Inr r"
    and total: "\<And>a b. \<not> (\<exists>r. cmp a b = Inr r \<and> r \<le> 0) \<Longrightarrow> \<exists>r. cmp b a = Inr r \<and> r \<le> (0::int)"
    and trans: "\<And>a b c. \<exists>r. cmp a b = Inr r \<and> r \<le> 0 \<Longrightarrow> \<exists>r. cmp b c = Inr r \<and> r \<le> 0
                  \<Longrightarrow> \<exists>r. cmp a c = Inr r \<and> r \<le> 0"
    and "sorted_wrt (\<lambda>a b. \<exists>r. cmp a b = Inr r \<and> r \<le> 0) ys"
  shows "\<exists>zs. insert_by cmp x ys = Inr zs \<and> set zs = insert x (set ys)
            \<and> sorted_wrt (\<lambda>a b. \<exists>r. cmp a b = Inr r \<and> r \<le> 0) zs"
  using assms(4)
proof (induction ys)
  case Nil
  then show ?case by simp
next
  case (Cons y ys)
  obtain r where r: "cmp x y = Inr r"
    using never by blast
  show ?case
  proof (cases "r \<le> 0")
    case True
    then have xy: "\<exists>r. cmp x y = Inr r \<and> r \<le> 0"
      using r by simp
    have "\<exists>r. cmp x z = Inr r \<and> r \<le> 0" if "z \<in> set ys" for z
    proof -
      have "\<exists>r. cmp y z = Inr r \<and> r \<le> 0"
        using Cons.prems that by simp
      then show ?thesis
        by (rule trans [OF xy])
    qed
    then show ?thesis
      using True r xy Cons.prems by simp
  next
    case False
    then have "\<not> (\<exists>r. cmp x y = Inr r \<and> r \<le> 0)"
      using r by simp
    then have yx: "\<exists>r. cmp y x = Inr r \<and> r \<le> 0"
      by (rule total)
    obtain zs where zs: "insert_by cmp x ys = Inr zs" "set zs = insert x (set ys)"
        "sorted_wrt (\<lambda>a b. \<exists>r. cmp a b = Inr r \<and> r \<le> 0) zs"
      using Cons by auto
    have "insert_by cmp x (y # ys) = Inr (y # zs)"
      using r False zs(1) by simp
    moreover have "sorted_wrt (\<lambda>a b. \<exists>r. cmp a b = Inr r \<and> r \<le> 0) (y # zs)"
      using zs(2,3) yx Cons.prems by simp
    ultimately show ?thesis
      using zs(2) by auto
  qed
qed

lemma js_sort_sorted:
  assumes never: "\<And>a b. \<exists>r. cmp a b = Inr r"
    and total: "\<And>a b. \<not> (\<exists>r. cmp a b = Inr r \<and> r \<le> 0) \<Longrightarrow> \<exists>r. cmp b a = Inr r \<and> r \<le> (0::int)"
    and trans: "\<And>a b c. \<exists>r. cmp a b = Inr r \<and> r \<le> 0 \<Longrightarrow> \<exists>r. cmp b c = Inr r \<and> r \<le> 0
                  \<Longrightarrow> \<exists>r. cmp a c = Inr r \<and> r \<le> 0"
  shows "\<exists>ys. js_sort cmp xs = Inr ys \<and> set ys = set xs
            \<and> sorted_wrt (\<lambda>a b. \<exists>r. cmp a b = Inr r \<and> r \<le> 0) ys"
proof (induction xs)
  case Nil
  then show ?case by simp
next
  case (Cons x xs)
  then obtain ys where ys: "js_sort cmp xs = Inr ys" "set ys = set xs"
      "sorted_wrt (\<lambda>a b. \<exists>r. cmp a b = Inr r \<and> r \<le> 0) ys"
    by blast
  obtain zs where zs: "insert_by cmp x ys = Inr zs" "set zs = insert x (set ys)"
      "sorted_wrt (\<lambda>a b. \<exists>r. cmp a b = Inr r \<and> r \<le> 0) zs"
  proof -
    have "\<exists>zs. insert_by cmp x ys = Inr zs \<and> set zs = insert x (set ys)
            \<and> sorted_wrt (\<lambda>a b. \<exists>r. cmp a b = Inr r \<and> r \<le> 0) zs"
    proof (rule insert_by_sorted)
      show "\<exists>r. cmp a b = Inr r" for a b
        by (rule never)
      show "\<exists>r. cmp b a = Inr r \<and> r \<le> 0" if "\<not> (\<exists>r. cmp a b = Inr r \<and> r \<le> 0)" for a b
        using that by (rule total)
      show "\<exists>r. cmp a c = Inr r \<and> r \<le> 0"
        if "\<exists>r. cmp a b = Inr r \<and> r \<le> 0" and "\<exists>r. cmp b c = Inr r \<and> r \<le> 0" for a b c
        using that by (rule trans)
      show "sorted_wrt (\<lambda>a b. \<exists>r. cmp a b = Inr r \<and> r \<le> 0) ys"
        by (rule ys(3))
    qed
    then show ?thesis
      using that by blast
  qed
  show ?case
    using ys(1,2) zs by simp
qed

text \<open>The comparator on the latency key, in both directions: it never raises.\<close>

lemma compare_latency:
  "compare_configs pf K_latency dir a b =
     Inr (let ka = (if latency a = - 1 then PosInf else Fin (real_of_int (latency a)));
              kb = (if latency b = - 1 then PosInf else Fin (real_of_int (latency b)))
          in if num_lt ka kb then (if dir = asc then - 1 else 1)
             else if num_lt kb ka then (if dir = asc then 1 else - 1) else 0)"
  by (simp add: compare_configs_def js_lt_def js_gt_def ToPrimitive_def prim_lt_def Let_def)

lemma compare_latency_total:
  "\<not> (\<exists>r. compare_configs pf K_latency dir a b = Inr r \<and> r \<le> 0)
   \<Longrightarrow> \<exists>r. compare_configs pf K_latency dir b a = Inr r \<and> r \<le> 0"
  by (auto simp: compare_latency Let_def split: if_splits)

lemma compare_latency_trans:
  "\<exists>r. compare_configs pf K_latency dir a b = Inr r \<and> r \<le> 0
   \<Longrightarrow> \<exists>r. compare_configs pf K_latency dir b c = Inr r \<and> r \<le> 0
   \<Longrightarrow> \<exists>r. compare_configs pf K_latency dir a c = Inr r \<and> r \<le> 0"
  by (auto simp: compare_latency Let_def split: if_splits)

lemma sentinel_compares_greatest:
  assumes "latency a = - 1" and "latency b \<noteq> - 1"
  shows "compare_configs pf K_latency asc a b = Inr 1
       \<and> compare_configs pf K_latency asc b a = Inr (- 1)
       \<and> compare_configs pf K_latency desc a b = Inr (- 1)
       \<and> compare_configs pf K_latency desc b a = Inr 1"
  using assms by (simp add: compare_latency)

lemma filtered_sorted_by_latency:
  assumes "filteredAndSortedConfigs pf v withGroups = Inr ys" and "sort_key v = K_latency"
  shows "sorted_wrt (\<lambda>a b. \<exists>r. compare_configs pf K_latency (sort_direction v) (fst a) (fst b)
                                 = Inr r \<and> r \<le> 0) ys"
proof -
  let ?cmp = "\<lambda>a b. compare_configs pf K_latency (sort_direction v) (fst a) (fst b)"
  obtain f4 where ys: "js_sort ?cmp f4 = Inr ys"
    using assms by (auto simp: filteredAndSortedConfigs_def Let_def split: sum.splits)
  have "\<exists>zs. js_sort ?cmp f4 = Inr zs \<and> set zs = set f4
            \<and> sorted_wrt (\<lambda>a b. \<exists>r. ?cmp a b = Inr r \<and> r \<le> 0) zs"
  proof (rule js_sort_sorted)
    show "\<exists>r. ?cmp a b = Inr r" for a b
      by (simp add: compare_latency)
    show "\<exists>r. ?cmp b a = Inr r \<and> r \<le> 0" if "\<not> (\<exists>r. ?cmp a b = Inr r \<and> r \<le> 0)" for a b
      using that by (rule compare_latency_total)
    show "\<exists>r. ?cmp a c = Inr r \<and> r \<le> 0"
      if "\<exists>r. ?cmp a b = Inr r \<and> r \<le> 0" and "\<exists>r. ?cmp b c = Inr r \<and> r \<le> 0" for a b c
      using that by (rule compare_latency_trans)
  qed
  then show ?thesis
    using ys by simp
qed

text \<open>
  C7. On the latency key the comparator reads -1 as \<open>Infinity\<close> in both directions: a
  record with latency -1 compares greater than every record with another latency. In
  the view sorted ascending by latency every record with latency -1 therefore stands
  after every record with latency at least 0; sorted descending it stands before them.
\<close>

theorem latency_sort_placement:
  assumes "filteredAndSortedConfigs pf v withGroups = Inr ys" and "sort_key v = K_latency"
    and "i < length ys" and "j < length ys"
    and "latency (fst (ys ! i)) = - 1" and "0 \<le> latency (fst (ys ! j))"
  shows "(sort_direction v = asc \<longrightarrow> j < i) \<and> (sort_direction v = desc \<longrightarrow> i < j)
       \<and> compare_configs pf K_latency asc (fst (ys ! i)) (fst (ys ! j)) = Inr 1
       \<and> compare_configs pf K_latency desc (fst (ys ! i)) (fst (ys ! j)) = Inr (- 1)"
proof -
  let ?R = "\<lambda>a b. \<exists>r. compare_configs pf K_latency (sort_direction v) (fst a) (fst b) = Inr r
                      \<and> r \<le> 0"
  have s: "sorted_wrt ?R ys"
    using filtered_sorted_by_latency [OF assms(1,2)] .
  have ne: "latency (fst (ys ! j)) \<noteq> - 1"
    using assms(6) by simp
  have g: "compare_configs pf K_latency asc (fst (ys ! i)) (fst (ys ! j)) = Inr 1"
      "compare_configs pf K_latency asc (fst (ys ! j)) (fst (ys ! i)) = Inr (- 1)"
      "compare_configs pf K_latency desc (fst (ys ! i)) (fst (ys ! j)) = Inr (- 1)"
      "compare_configs pf K_latency desc (fst (ys ! j)) (fst (ys ! i)) = Inr 1"
    using sentinel_compares_greatest [OF assms(5) ne] by simp_all
  have "i \<noteq> j"
    using assms(5) ne by auto
  have up: "j < i" if "sort_direction v = asc"
  proof (rule ccontr)
    assume "\<not> j < i"
    then have "i < j" using \<open>i \<noteq> j\<close> by simp
    then have "?R (ys ! i) (ys ! j)"
      using s assms(4) by (simp add: sorted_wrt_iff_nth_less)
    then show False
      using that g(1) by simp
  qed
  have down: "i < j" if "sort_direction v = desc"
  proof (rule ccontr)
    assume "\<not> i < j"
    then have "j < i" using \<open>i \<noteq> j\<close> by simp
    then have "?R (ys ! j) (ys ! i)"
      using s assms(3) by (simp add: sorted_wrt_iff_nth_less)
    then show False
      using that g(4) by simp
  qed
  show ?thesis
    using up down g by simp
qed

lemmas view_defs =
  filteredAndSortedConfigs_def sample_view_def sample_inventory_def sample_config_def
  new_config_def group_matches_def search_matches_def lower_includes_def sample_platform_def
  compare_latency

lemma sample_sorted_asc:
  "map_sum (\<lambda>e. e) (map (\<lambda>cg. (ident (fst cg), latency (fst cg))))
     (filteredAndSortedConfigs sample_platform (sample_view asc)
        (map (\<lambda>c. (c, [])) sample_inventory))
   = Inr [(''d'', 30), (''b'', 120), (''a'', - 1), (''c'', - 1)]"
  by (simp add: view_defs)

lemma sample_sorted_desc:
  "map_sum (\<lambda>e. e) (map (\<lambda>cg. (ident (fst cg), latency (fst cg))))
     (filteredAndSortedConfigs sample_platform (sample_view desc)
        (map (\<lambda>c. (c, [])) sample_inventory))
   = Inr [(''a'', - 1), (''c'', - 1), (''b'', 120), (''d'', 30)]"
  by (simp add: view_defs)

theorem latency_sort_placement_witness:
  "\<exists>ys. filteredAndSortedConfigs sample_platform (sample_view asc)
           (map (\<lambda>c. (c, [])) sample_inventory) = Inr ys
      \<and> length ys = 4 \<and> latency (fst (ys ! 2)) = - 1 \<and> latency (fst (ys ! 0)) = 30
      \<and> (0::nat) < 2"
proof -
  obtain ys where ys: "filteredAndSortedConfigs sample_platform (sample_view asc)
           (map (\<lambda>c. (c, [])) sample_inventory) = Inr ys"
      and m: "map (\<lambda>cg. (ident (fst cg), latency (fst cg))) ys
              = [(''d'', 30), (''b'', 120), (''a'', - 1), (''c'', - 1)]"
    using sample_sorted_asc by (auto simp: map_sum_def split: sum.splits)
  have len: "length ys = 4"
    using arg_cong [OF m, of length] by simp
  have l2: "latency (fst (ys ! 2)) = - 1" and l0: "latency (fst (ys ! 0)) = 30"
    using arg_cong [OF m, of "\<lambda>zs. snd (zs ! 2)"] arg_cong [OF m, of "\<lambda>zs. snd (zs ! 0)"] len
    by simp_all
  have k: "sort_key (sample_view asc) = K_latency" "sort_direction (sample_view asc) = asc"
    by (simp_all add: sample_view_def)
  have "(0::nat) < 2"
    using latency_sort_placement [OF ys k(1), of 2 0] len l2 l0 k(2) by simp
  then show ?thesis
    using ys len l2 l0 by blast
qed

section \<open>Properties of the scheduler\<close>

subsection \<open>An invariant of every run\<close>

lemma no_Testing_revert: "no_Testing (revert_testing cs)"
  by (induction cs) (simp_all add: no_Testing_def revert_testing_def)

lemma runNext_inv:
  assumes "sched_inv s"
  shows "sched_inv (runNext s)"
  using assms by (auto simp: sched_inv_def runNext_def no_Testing_revert)

lemma launch_inv:
  assumes "sched_inv s"
  shows "sched_inv (launch c i s)"
  using assms
proof (induction c i s rule: launch.induct)
  case (1 c i s)
  show ?case
  proof (cases "launch_bound c i s")
    case True
    then have "launch c i s = launch c (Suc i) (runNext s)"
      by (simp add: launch.simps [of c i s])
    then show ?thesis
      using "1.IH" [OF True] runNext_inv [OF "1.prems"] by simp
  next
    case False
    then have "launch c i s = s"
      by (auto simp: launch.simps [of c i s])
    then show ?thesis
      using "1.prems" by simp
  qed
qed

lemma startTesting_inv: "sched_inv (startTesting view configs c)"
  unfolding startTesting_def by (rule launch_inv) (simp add: sched_inv_def)

lemma length_remove_nth:
  assumes "i < length xs"
  shows "int (length (take i xs @ drop (Suc i) xs)) = int (length xs) - 1"
  using assms by simp

lemma merge_result_fields:
  "s_isTesting (merge_result config result now s) = s_isTesting s
   \<and> s_stopFlag (merge_result config result now s) = s_stopFlag s
   \<and> s_queue (merge_result config result now s) = s_queue s
   \<and> s_running (merge_result config result now s) = s_running s
   \<and> s_inflight (merge_result config result now s) = s_inflight s
   \<and> s_testedCount (merge_result config result now s) = s_testedCount s
   \<and> s_total (merge_result config result now s) = s_total s"
  by (simp add: merge_result_def)

lemma count_tested_fields:
  "s_isTesting (count_tested s) = s_isTesting s
   \<and> s_stopFlag (count_tested s) = s_stopFlag s
   \<and> s_queue (count_tested s) = s_queue s
   \<and> s_running (count_tested s) = s_running s - 1
   \<and> s_inflight (count_tested s) = s_inflight s
   \<and> s_testedCount (count_tested s) = s_testedCount s + 1
   \<and> s_total (count_tested s) = s_total s
   \<and> s_configs (count_tested s) = s_configs s"
  by (simp add: count_tested_def)

lemma step_Finish:
  assumes "step pf timeout (Finish i d) s = Some s'"
  shows "i < length (s_inflight s)
       \<and> s' = runNext (count_tested (merge_result (s_inflight s ! i)
                (testConfig pf (s_inflight s ! i) timeout d) (d_now d)
                (s\<lparr>s_inflight := take i (s_inflight s) @ drop (Suc i) (s_inflight s)\<rparr>)))"
  using assms by (simp add: resume_def split: if_splits)

lemma step_inv:
  assumes "sched_inv s" and "step pf timeout e s = Some s'"
  shows "sched_inv s'"
proof (cases e)
  case Stop
  then show ?thesis
    using assms by (auto simp: sched_inv_def split: if_splits)
next
  case (Finish i d)
  define s2 where "s2 = count_tested (merge_result (s_inflight s ! i)
                (testConfig pf (s_inflight s ! i) timeout d) (d_now d)
                (s\<lparr>s_inflight := take i (s_inflight s) @ drop (Suc i) (s_inflight s)\<rparr>))"
  have i: "i < length (s_inflight s)" and s': "s' = runNext s2"
    using step_Finish [of pf timeout i d s s'] assms(2) Finish by (simp_all add: s2_def)
  have t: "s_isTesting s"
    using assms(1) i by (auto simp: sched_inv_def)
  have "s_running s2 = int (length (s_inflight s2))" and "s_isTesting s2"
    using assms(1) t length_remove_nth [OF i]
    by (simp_all add: s2_def sched_inv_def count_tested_fields merge_result_fields)
  then have "sched_inv s2"
    by (simp add: sched_inv_def)
  then show ?thesis
    unfolding s' by (rule runNext_inv)
qed

lemma run_inv:
  assumes "sched_inv s" and "run pf timeout evs s = Some s'"
  shows "sched_inv s'"
  using assms
proof (induction evs arbitrary: s)
  case Nil
  then show ?case by simp
next
  case (Cons e evs)
  then obtain s1 where s1: "step pf timeout e s = Some s1" "run pf timeout evs s1 = Some s'"
    by (auto split: option.splits)
  show ?case
    using Cons.IH [OF step_inv [OF Cons.prems(1) s1(1)] s1(2)] .
qed

subsection \<open>The workers of a run\<close>

text \<open>
  The launch loop, started with no stop requested. A round is entered only while the
  counter is below both \<open>concurrentTests\<close> and the length of the queue; every round
  takes one record from the queue and adds one pending probe.
\<close>

lemma launch_bound_less:
  assumes "launch_bound c i s"
  shows "num_lt (Fin (real i)) c \<and> i < length (s_queue s)"
  using assms by (cases c) (simp_all add: launch_bound_def)

lemma launch_bound_first:
  assumes "num_lt (Fin 0) c" and "s_queue s \<noteq> []"
  shows "launch_bound c 0 s"
  using assms by (cases c) (simp_all add: launch_bound_def)

lemma launch_loop:
  assumes "\<not> s_stopFlag s" and "s_isTesting s" and "s_running s = int i"
    and "s_running s = int (length (s_inflight s))"
    and "length (s_queue s) + length (s_inflight s) + s_testedCount s = s_total s"
  shows "\<not> s_stopFlag (launch c i s) \<and> s_isTesting (launch c i s)
       \<and> s_running (launch c i s) = int (length (s_inflight (launch c i s)))
       \<and> length (s_queue (launch c i s)) + length (s_inflight (launch c i s))
           + s_testedCount (launch c i s) = s_total (launch c i s)
       \<and> int i \<le> s_running (launch c i s)
       \<and> (launch_bound c i s \<longrightarrow> int i < s_running (launch c i s))
       \<and> (s_running (launch c i s) = int i
          \<or> num_lt (Fin (real_of_int (s_running (launch c i s)) - 1)) c)
       \<and> s_configs (launch c i s) = s_configs s
       \<and> s_testedCount (launch c i s) = s_testedCount s
       \<and> s_total (launch c i s) = s_total s"
  using assms
proof (induction c i s rule: launch.induct)
  case (1 c i s)
  show ?case
  proof (cases "launch_bound c i s")
    case True
    then have below: "num_lt (Fin (real i)) c" and "i < length (s_queue s)"
      using launch_bound_less [of c i s] by simp_all
    then have q: "s_queue s \<noteq> []"
      by auto
    have l: "launch c i s = launch c (Suc i) (runNext s)"
      using True by (simp add: launch.simps [of c i s])
    have r: "runNext s = s\<lparr>s_running := s_running s + 1, s_queue := tl (s_queue s),
                            s_inflight := s_inflight s @ [hd (s_queue s)]\<rparr>"
      using "1.prems"(1) q by (simp add: runNext_def)
    let ?L = "launch c (Suc i) (runNext s)"
    have ih: "\<not> s_stopFlag ?L \<and> s_isTesting ?L
       \<and> s_running ?L = int (length (s_inflight ?L))
       \<and> length (s_queue ?L) + length (s_inflight ?L) + s_testedCount ?L = s_total ?L
       \<and> int (Suc i) \<le> s_running ?L
       \<and> (launch_bound c (Suc i) (runNext s) \<longrightarrow> int (Suc i) < s_running ?L)
       \<and> (s_running ?L = int (Suc i) \<or> num_lt (Fin (real_of_int (s_running ?L) - 1)) c)
       \<and> s_configs ?L = s_configs (runNext s)
       \<and> s_testedCount ?L = s_testedCount (runNext s)
       \<and> s_total ?L = s_total (runNext s)"
    proof (rule "1.IH" [OF True])
      show "\<not> s_stopFlag (runNext s)" "s_isTesting (runNext s)"
        using "1.prems"(1,2) by (simp_all add: r)
      show "s_running (runNext s) = int (Suc i)"
        using "1.prems"(3) by (simp add: r)
      show "s_running (runNext s) = int (length (s_inflight (runNext s)))"
        using "1.prems"(4) by (simp add: r)
      show "length (s_queue (runNext s)) + length (s_inflight (runNext s))
              + s_testedCount (runNext s) = s_total (runNext s)"
        using "1.prems"(5) q by (cases "s_queue s") (simp_all add: r)
    qed
    have up: "int i < s_running ?L"
      using ih by simp
    have bound: "num_lt (Fin (real_of_int (s_running ?L) - 1)) c"
    proof (cases "s_running ?L = int (Suc i)")
      case True
      then have "real_of_int (s_running ?L) - 1 = real i"
        by simp
      then show ?thesis
        using below by simp
    next
      case False
      then show ?thesis
        using ih by blast
    qed
    have rest: "s_configs (runNext s) = s_configs s" "s_testedCount (runNext s) = s_testedCount s"
        "s_total (runNext s) = s_total s"
      by (simp_all add: r)
    show ?thesis
      unfolding l using ih up bound rest by simp
  next
    case False
    have l: "launch c i s = s"
      using False by (simp add: launch.simps [of c i s])
    show ?thesis
      unfolding l using "1.prems" False by simp
  qed
qed

lemma startTesting_launched:
  "s_running (startTesting view configs c) = int (length (s_inflight (startTesting view configs c)))
   \<and> s_isTesting (startTesting view configs c) \<and> \<not> s_stopFlag (startTesting view configs c)
   \<and> length (s_queue (startTesting view configs c)) + length (s_inflight (startTesting view configs c))
       = length (configsToTest view)
   \<and> s_testedCount (startTesting view configs c) = 0
   \<and> s_total (startTesting view configs c) = length (configsToTest view)
   \<and> (num_lt (Fin 0) c \<and> configsToTest view \<noteq> [] \<longrightarrow> 1 \<le> s_running (startTesting view configs c))
   \<and> (s_running (startTesting view configs c) = 0
      \<or> num_lt (Fin (real_of_int (s_running (startTesting view configs c)) - 1)) c)
   \<and> (\<not> num_lt (Fin 0) c \<longrightarrow> s_running (startTesting view configs c) = 0)"
proof -
  define s0 where "s0 =
       \<lparr>s_configs = map (\<lambda>x. if ident x \<in> set (map ident (configsToTest view))
                              then x\<lparr>status := Testing\<rparr> else x) configs,
        s_isTesting = True, s_stopFlag = False, s_success = 0, s_fail = 0, s_progress = 0,
        s_queue = configsToTest view, s_running = 0, s_testedCount = 0,
        s_total = length (configsToTest view), s_inflight = []\<rparr>"
  have st: "startTesting view configs c = launch c 0 s0"
    by (simp add: startTesting_def s0_def)
  have loop: "\<not> s_stopFlag (launch c 0 s0) \<and> s_isTesting (launch c 0 s0)
       \<and> s_running (launch c 0 s0) = int (length (s_inflight (launch c 0 s0)))
       \<and> length (s_queue (launch c 0 s0)) + length (s_inflight (launch c 0 s0))
           + s_testedCount (launch c 0 s0) = s_total (launch c 0 s0)
       \<and> int 0 \<le> s_running (launch c 0 s0)
       \<and> (launch_bound c 0 s0 \<longrightarrow> int 0 < s_running (launch c 0 s0))
       \<and> (s_running (launch c 0 s0) = int 0
          \<or> num_lt (Fin (real_of_int (s_running (launch c 0 s0)) - 1)) c)
       \<and> s_configs (launch c 0 s0) = s_configs s0
       \<and> s_testedCount (launch c 0 s0) = s_testedCount s0
       \<and> s_total (launch c 0 s0) = s_total s0"
    by (rule launch_loop) (simp_all add: s0_def)
  have first: "1 \<le> s_running (launch c 0 s0)" if "num_lt (Fin 0) c" and "configsToTest view \<noteq> []"
  proof -
    have "launch_bound c 0 s0"
      using that by (intro launch_bound_first) (simp_all add: s0_def)
    then show ?thesis
      using loop by simp
  qed
  have none: "s_running (launch c 0 s0) = 0" if "\<not> num_lt (Fin 0) c"
  proof -
    have "\<not> launch_bound c 0 s0"
      using that launch_bound_less [of c 0 s0] by auto
    then have "launch c 0 s0 = s0"
      by (simp add: launch.simps [of c 0 s0])
    then show ?thesis
      by (simp add: s0_def)
  qed
  have fields: "s_testedCount s0 = 0" "s_total s0 = length (configsToTest view)"
    by (simp_all add: s0_def)
  have a: "s_running (launch c 0 s0) = int (length (s_inflight (launch c 0 s0)))"
      "s_isTesting (launch c 0 s0)" "\<not> s_stopFlag (launch c 0 s0)"
    using loop by blast+
  have "s_testedCount (launch c 0 s0) = s_testedCount s0" "s_total (launch c 0 s0) = s_total s0"
      "length (s_queue (launch c 0 s0)) + length (s_inflight (launch c 0 s0))
           + s_testedCount (launch c 0 s0) = s_total (launch c 0 s0)"
    using loop by blast+
  then have b: "s_testedCount (launch c 0 s0) = 0"
      "s_total (launch c 0 s0) = length (configsToTest view)"
      "length (s_queue (launch c 0 s0)) + length (s_inflight (launch c 0 s0))
         = length (configsToTest view)"
    using fields by simp_all
  have "s_running (launch c 0 s0) = int 0
      \<or> num_lt (Fin (real_of_int (s_running (launch c 0 s0)) - 1)) c"
    using loop by blast
  then have bound: "s_running (launch c 0 s0) = 0
      \<or> num_lt (Fin (real_of_int (s_running (launch c 0 s0)) - 1)) c"
    by (simp only: of_nat_0)
  show ?thesis
    unfolding st using a b bound first none by blast
qed

subsection \<open>Cancellation\<close>

lemma run_snoc:
  "run pf timeout (evs @ [e]) s =
     (case run pf timeout evs s of None \<Rightarrow> None | Some s1 \<Rightarrow> step pf timeout e s1)"
  by (induction evs arbitrary: s) (auto split: option.splits)

text \<open>The completion that ends a stopped run maps the records still in Testing back to Untested.\<close>

lemma last_worker_reverts:
  assumes "step pf timeout e s = Some s'" and "sched_inv s" and "s_stopFlag s'" and "\<not> s_isTesting s'"
  shows "s_isTesting s \<and> s_configs s' = revert_testing (s_configs s)"
proof (cases e)
  case Stop
  then show ?thesis
    using assms by (auto split: if_splits)
next
  case (Finish i d)
  define s2 where "s2 = count_tested (merge_result (s_inflight s ! i)
                (testConfig pf (s_inflight s ! i) timeout d) (d_now d)
                (s\<lparr>s_inflight := take i (s_inflight s) @ drop (Suc i) (s_inflight s)\<rparr>))"
  have i: "i < length (s_inflight s)" and s': "s' = runNext s2"
    using step_Finish [of pf timeout i d s s'] assms(1) Finish by (simp_all add: s2_def)
  have t: "s_isTesting s"
    using assms(2) i by (auto simp: sched_inv_def)
  have "s_stopFlag (runNext s2) = s_stopFlag s2"
    by (simp add: runNext_def)
  then have stop: "s_stopFlag s"
    using assms(3) by (simp add: s' s2_def count_tested_fields merge_result_fields)
  then have c: "s_configs s2 = s_configs s" and f: "s_stopFlag s2" "s_isTesting s2"
    using t by (simp_all add: s2_def count_tested_def merge_result_def)
  have "s_configs (runNext s2) = revert_testing (s_configs s2)"
    using assms(4) f by (auto simp: s' runNext_def)
  then show ?thesis
    using t c by (simp add: s')
qed

text \<open>
  C3. In every state a manual run can reach, if stop has been requested and the
  scheduler has reported the end of the run (\<open>isTesting\<close> is false), then no probe is
  pending and no record has status Testing: the worker that finished last has mapped
  every record still in Testing back to Untested, and nothing has happened since.
\<close>

theorem stop_leaves_no_Testing:
  assumes "run pf timeout evs (startTesting view configs c) = Some s"
    and "s_stopFlag s" and "\<not> s_isTesting s"
  shows "no_Testing (s_configs s) \<and> (\<forall>x \<in> set (s_configs s). status x \<noteq> Testing)
       \<and> s_inflight s = [] \<and> s_running s = 0
       \<and> (\<exists>evs1 e s1. evs = evs1 @ [e]
             \<and> run pf timeout evs1 (startTesting view configs c) = Some s1
             \<and> s_isTesting s1 \<and> s_configs s = revert_testing (s_configs s1))"
proof -
  have "sched_inv s"
    using run_inv [OF startTesting_inv assms(1)] .
  then have a: "no_Testing (s_configs s)" "s_inflight s = []" "s_running s = 0"
    using assms(2,3) by (auto simp: sched_inv_def)
  have "s_isTesting (startTesting view configs c)"
    using startTesting_launched [of view configs c] by blast
  then have "evs \<noteq> []"
    using assms(1,3) by auto
  then obtain evs1 e where evs: "evs = evs1 @ [e]"
    by (cases evs rule: rev_cases) auto
  then obtain s1 where s1: "run pf timeout evs1 (startTesting view configs c) = Some s1"
      "step pf timeout e s1 = Some s"
    using assms(1) by (auto simp: run_snoc split: option.splits)
  have "sched_inv s1"
    using run_inv [OF startTesting_inv s1(1)] .
  then have "s_isTesting s1 \<and> s_configs s = revert_testing (s_configs s1)"
    using last_worker_reverts [OF s1(2) _ assms(2,3)] by simp
  then have "\<exists>evs1 e s1. evs = evs1 @ [e]
             \<and> run pf timeout evs1 (startTesting view configs c) = Some s1
             \<and> s_isTesting s1 \<and> s_configs s = revert_testing (s_configs s1)"
    using evs s1(1) by blast
  then show ?thesis
    using a by (simp add: no_Testing_def list_all_iff)
qed

subsection \<open>Liveness\<close>

lemma runNext_live:
  assumes "s_isTesting s" and "s_running s = int (length (s_inflight s))" and "s_running s < c"
    and "length (s_queue s) + length (s_inflight s) + s_testedCount s = s_total s"
  shows "sched_live c (runNext s)"
proof (cases "s_stopFlag s \<or> s_queue s = []")
  case True
  then show ?thesis
    using assms by (auto simp: sched_live_def runNext_def)
next
  case False
  then obtain x xs where "s_queue s = x # xs"
    by (cases "s_queue s") auto
  then show ?thesis
    using assms False by (simp add: sched_live_def runNext_def)
qed

lemma step_live:
  assumes "sched_live c s" and "step pf timeout e s = Some s'"
  shows "sched_live c s' \<and> s_testedCount s' = s_testedCount s + finishes [e]
       \<and> s_total s' = s_total s"
proof (cases e)
  case Stop
  then show ?thesis
    using assms by (auto simp: sched_live_def split: if_splits)
next
  case (Finish i d)
  define s2 where "s2 = count_tested (merge_result (s_inflight s ! i)
                (testConfig pf (s_inflight s ! i) timeout d) (d_now d)
                (s\<lparr>s_inflight := take i (s_inflight s) @ drop (Suc i) (s_inflight s)\<rparr>))"
  have i: "i < length (s_inflight s)" and s': "s' = runNext s2"
    using step_Finish [of pf timeout i d s s'] assms(2) Finish by (simp_all add: s2_def)
  have t: "s_isTesting s"
    using assms(1) i by (auto simp: sched_live_def)
  have f: "s_isTesting s2" "s_running s2 = int (length (s_inflight s2))" "s_running s2 < c"
      "length (s_queue s2) + length (s_inflight s2) + s_testedCount s2 = s_total s2"
      "s_testedCount s2 = s_testedCount s + 1" "s_total s2 = s_total s"
    using assms(1) t i length_remove_nth [OF i]
    by (simp_all add: s2_def sched_live_def count_tested_fields merge_result_fields)
  have "s_testedCount (runNext s2) = s_testedCount s2" and "s_total (runNext s2) = s_total s2"
    by (simp_all add: runNext_def)
  then show ?thesis
    using runNext_live [OF f(1-4)] f(5,6) Finish by (simp add: s')
qed

lemma run_live:
  assumes "sched_live c s" and "run pf timeout evs s = Some s'"
  shows "sched_live c s' \<and> s_testedCount s' = s_testedCount s + finishes evs
       \<and> s_total s' = s_total s"
  using assms
proof (induction evs arbitrary: s)
  case Nil
  then show ?case by simp
next
  case (Cons e evs)
  then obtain s1 where s1: "step pf timeout e s = Some s1" "run pf timeout evs s1 = Some s'"
    by (auto split: option.splits)
  have a: "sched_live c s1" "s_testedCount s1 = s_testedCount s + finishes [e]"
      "s_total s1 = s_total s"
    using step_live [OF Cons.prems(1) s1(1)] by simp_all
  have "finishes (e # evs) = finishes [e] + finishes evs"
    by (cases e) simp_all
  then show ?case
    using Cons.IH [OF a(1) s1(2)] a(2,3) by simp
qed

text \<open>
  With a positive \<open>concurrentTests\<close> and a candidate to test, the loop launches at least
  one worker, and the number \<open>m\<close> of workers it launches satisfies \<open>m - 1 < concurrentTests\<close>.
  From then on the number of pending probes never exceeds \<open>m\<close>; the run is reported as
  testing exactly while a probe is pending, so it can always take a step; and every
  completion moves one record out of the queue and the pending probes, so the run ends
  after as many completions as there are candidates.
\<close>

lemma positive_concurrency_live:
  assumes "num_lt (Fin 0) c" and "configsToTest view \<noteq> []"
    and "run pf timeout evs (startTesting view configs c) = Some s"
  shows "1 \<le> s_running (startTesting view configs c)
       \<and> num_lt (Fin (real_of_int (s_running (startTesting view configs c)) - 1)) c
       \<and> s_running s = int (length (s_inflight s))
       \<and> s_running s \<le> s_running (startTesting view configs c)
       \<and> s_isTesting s = (s_inflight s \<noteq> [])
       \<and> length (s_queue s) + length (s_inflight s) + finishes evs = length (configsToTest view)
       \<and> (finishes evs = length (configsToTest view) \<longrightarrow> \<not> s_isTesting s)
       \<and> (s_isTesting s \<longrightarrow> (\<forall>d. step pf timeout (Finish 0 d) s \<noteq> None))"
proof -
  let ?s0 = "startTesting view configs c"
  have started: "s_running ?s0 = int (length (s_inflight ?s0))" "s_isTesting ?s0"
      "length (s_queue ?s0) + length (s_inflight ?s0) = length (configsToTest view)"
      "s_testedCount ?s0 = 0" "s_total ?s0 = length (configsToTest view)"
      "1 \<le> s_running ?s0"
      "s_running ?s0 = 0 \<or> num_lt (Fin (real_of_int (s_running ?s0) - 1)) c"
    using startTesting_launched [of view configs c] assms(1,2) by blast+
  have bound: "num_lt (Fin (real_of_int (s_running ?s0) - 1)) c"
    using started(6,7) by auto
  have "s_inflight ?s0 \<noteq> []"
    using started(1,6) by auto
  then have live0: "sched_live (s_running ?s0) ?s0"
    using started by (simp add: sched_live_def)
  have live: "sched_live (s_running ?s0) s" and tested: "s_testedCount s = finishes evs"
    and total: "s_total s = length (configsToTest view)"
    using run_live [OF live0 assms(3)] started(4,5) by simp_all
  have sum: "length (s_queue s) + length (s_inflight s) + finishes evs = length (configsToTest view)"
    using live tested total by (simp add: sched_live_def)
  have "step pf timeout (Finish 0 d) s \<noteq> None" if "s_isTesting s" for d
    using that live by (simp add: sched_live_def)
  then show ?thesis
    using started(6) bound live sum by (auto simp: sched_live_def)
qed

text \<open>
  Without a worker the run never ends: whatever happens next, \<open>isTesting\<close> stays set
  and the records stay as \<open>startTesting\<close> marked them. This is so for every
  \<open>concurrentTests\<close> that is not above 0: zero, a negative number, \<open>NaN\<close>.
\<close>

lemma no_worker_never_ends:
  assumes "\<not> num_lt (Fin 0) c" and "run pf timeout evs (startTesting view configs c) = Some s"
  shows "s_isTesting s \<and> s_inflight s = [] \<and> s_configs s = s_configs (startTesting view configs c)"
proof -
  have "s_running (startTesting view configs c) = 0"
    using startTesting_launched [of view configs c] assms(1) by blast
  moreover have "s_running (startTesting view configs c)
        = int (length (s_inflight (startTesting view configs c)))"
      and "s_isTesting (startTesting view configs c)"
    using startTesting_launched [of view configs c] by blast+
  ultimately have init: "s_isTesting (startTesting view configs c)
      \<and> s_inflight (startTesting view configs c) = []"
    by simp
  have "s_isTesting s' \<and> s_inflight s' = [] \<and> s_configs s' = s_configs s0"
    if "s_isTesting s0 \<and> s_inflight s0 = []" and "run pf timeout evs s0 = Some s'" for s0 s'
    using that
  proof (induction evs arbitrary: s0)
    case Nil
    then show ?case by simp
  next
    case (Cons e evs)
    show ?case
    proof (cases e)
      case Stop
      then have "run pf timeout evs (s0\<lparr>s_stopFlag := True\<rparr>) = Some s'"
        using Cons.prems by simp
      then show ?thesis
        using Cons.IH [of "s0\<lparr>s_stopFlag := True\<rparr>"] Cons.prems(1) by simp
    next
      case (Finish i d)
      then show ?thesis
        using Cons.prems by simp
    qed
  qed
  then show ?thesis
    using init assms(2) by blast
qed

subsection \<open>Runs of ten records\<close>

lemmas run_defs =
  startTesting_def launch.simps launch_bound_def runNext_def resume_def merge_result_def
  count_tested_def revert_testing_def configsToTest_def apply_result_def testConfig_def
  probe_failed_def testLatency_def Math_round_def num_gt_def geo_keys_def
  ten_view_def ten_untested_def
  sample_config_def new_config_def sample_platform_def draws_fast_def draws_slow_def
  upt_rec numeral_eq_Suc

text \<open>
  Three workers. Stop is requested after the first probe has completed; the three
  pending probes then finish.
\<close>

lemma cancelled_run:
  "map_option (\<lambda>s. (s_stopFlag s, s_isTesting s, map status (s_configs s), s_success s))
     (run sample_platform (Fin 3000)
        [Finish 0 draws_fast, Stop, Finish 0 draws_fast, Finish 1 draws_slow, Finish 0 draws_fast]
        (startTesting ten_view ten_untested (Fin 3)))
   = Some (True, False, Active # replicate 9 Untested, 1)"
  by (simp add: run_defs)

theorem stop_leaves_no_Testing_witness:
  "\<exists>s. run sample_platform (Fin 3000)
          [Finish 0 draws_fast, Stop, Finish 0 draws_fast, Finish 1 draws_slow, Finish 0 draws_fast]
          (startTesting ten_view ten_untested (Fin 3)) = Some s
      \<and> s_stopFlag s \<and> \<not> s_isTesting s
      \<and> map status (s_configs s) = Active # replicate 9 Untested
      \<and> no_Testing (s_configs s) \<and> s_running s = 0"
proof -
  obtain s where s: "run sample_platform (Fin 3000)
          [Finish 0 draws_fast, Stop, Finish 0 draws_fast, Finish 1 draws_slow, Finish 0 draws_fast]
          (startTesting ten_view ten_untested (Fin 3)) = Some s"
      and f: "s_stopFlag s" "\<not> s_isTesting s" "map status (s_configs s) = Active # replicate 9 Untested"
    using cancelled_run by (auto simp: map_option_case split: option.splits)
  have g: "no_Testing (s_configs s)" "s_running s = 0"
    using stop_leaves_no_Testing [OF s f(1,2)] by simp_all
  show ?thesis
    by (rule exI [of _ s]) (simp only: s f g simp_thms)
qed

text \<open>Three workers, no stop: the run ends when the tenth probe has completed.\<close>

lemma complete_run:
  "s_running (startTesting ten_view ten_untested (Fin 3)) = 3
   \<and> map_option (\<lambda>s. (s_isTesting s, map status (s_configs s), s_success s, s_progress s))
       (run sample_platform (Fin 3000) (replicate 10 (Finish 0 draws_fast))
          (startTesting ten_view ten_untested (Fin 3)))
     = Some (False, replicate 10 Active, 10, 100)"
  by (simp add: run_defs)

text \<open>
  The bound of the loop is read again in every round, after \<open>runNext\<close> has shortened
  the queue: with \<open>concurrentTests = 20\<close> the ten records get five workers, not ten.
\<close>

lemma twenty_workers_launch_five:
  "s_running (startTesting ten_view ten_untested (Fin 20)) = 5
   \<and> length (s_queue (startTesting ten_view ten_untested (Fin 20))) = 5"
  by (simp add: run_defs)

text \<open>
  The number input of the settings page carries \<open>min="1" max="20"\<close>, but
  \<open>handleInputChange\<close> stores \<open>Number(value)\<close> as it is typed. At \<open>concurrentTests = 2.5\<close>
  the loop runs while \<open>i < 2.5\<close> and launches three workers, more than the configured
  value.
\<close>

lemma fractional_concurrency_launches_three:
  "s_running (startTesting ten_view ten_untested (Fin (5 / 2))) = 3
   \<and> length (s_inflight (startTesting ten_view ten_untested (Fin (5 / 2)))) = 3
   \<and> \<not> num_lt (Fin 3) (Fin (5 / 2)) \<and> num_lt (Fin (5 / 2)) (Fin 3)"
  by (simp add: run_defs)

text \<open>
  C4. The claim fails at \<open>concurrentTests = 0\<close>, a value the input's \<open>min="1"\<close> is meant
  to exclude and \<open>handleInputChange\<close> lets through: the loop launches no worker, and the
  ten candidates stay in Testing with \<open>isTesting\<close> set; no probe is pending, so no
  completion can happen, and stop changes nothing but the flag.
\<close>

theorem zero_concurrency_launches_nothing:
  "length (configsToTest ten_view) = 10
   \<and> s_running (startTesting ten_view ten_untested (Fin 0)) = 0
   \<and> s_inflight (startTesting ten_view ten_untested (Fin 0)) = []
   \<and> s_isTesting (startTesting ten_view ten_untested (Fin 0))
   \<and> map status (s_configs (startTesting ten_view ten_untested (Fin 0))) = replicate 10 Testing
   \<and> step sample_platform (Fin 3000) (Finish 0 draws_fast)
        (startTesting ten_view ten_untested (Fin 0)) = None
   \<and> map_option (\<lambda>s. (s_isTesting s, s_inflight s, map status (s_configs s)))
        (step sample_platform (Fin 3000) Stop (startTesting ten_view ten_untested (Fin 0)))
      = Some (True, [], replicate 10 Testing)"
  by (simp add: run_defs)

subsection \<open>The histories during a manual run\<close>

lemma runNext_cap:
  assumes "histories_capped (s_configs s)"
  shows "histories_capped (s_configs (runNext s))"
proof -
  have "histories_capped (revert_testing cs)" if "histories_capped cs" for cs
    using that by (induction cs) (simp_all add: histories_capped_def revert_testing_def)
  then show ?thesis
    using assms by (simp add: runNext_def)
qed

lemma step_cap:
  assumes "histories_capped (s_configs s)" and "step pf timeout e s = Some s'"
  shows "histories_capped (s_configs s')"
proof (cases e)
  case Stop
  then show ?thesis
    using assms by (auto split: if_splits)
next
  case (Finish i d)
  have s': "s' = runNext (count_tested (merge_result (s_inflight s ! i)
                (testConfig pf (s_inflight s ! i) timeout d) (d_now d)
                (s\<lparr>s_inflight := take i (s_inflight s) @ drop (Suc i) (s_inflight s)\<rparr>)))"
    using step_Finish [of pf timeout i d s s'] assms(2) Finish by simp
  have "histories_capped (s_configs (merge_result (s_inflight s ! i)
                (testConfig pf (s_inflight s ! i) timeout d) (d_now d)
                (s\<lparr>s_inflight := take i (s_inflight s) @ drop (Suc i) (s_inflight s)\<rparr>)))"
    using assms(1) merge_keeps_cap [OF assms(1)] by (simp add: merge_result_def)
  then show ?thesis
    unfolding s' by (intro runNext_cap) (simp add: count_tested_fields)
qed

subsection \<open>Probes that overlap\<close>

lemmas overlap_defs =
  eight_probed_def startAutoTest_def autoTest_candidates_def
  startTesting_def launch.simps launch_bound_def runNext_def resume_def merge_result_def
  count_tested_def revert_testing_def configsToTest_def apply_result_def testConfig_def
  probe_failed_def testLatency_def Math_round_def num_gt_def geo_keys_def
  sample_config_def new_config_def sample_platform_def draws_fast_def draws_slow_def
  draws_refused_def numeral_eq_Suc

text \<open>
  C8. The claim fails when two probes of one record overlap. The record of
  \<open>eight_probed\<close> holds eight samples and is Inactive. An automatic pass has begun to
  probe it when a manual run is started, which takes the same record from the same
  inventory; starting a run clears the interval but does not stop the pass. The manual
  probe completes first and its sample 1944 is merged: nine entries. Then the probe of
  the pass completes; its history was built from the record as the pass found it, and
  the merge by \<open>id\<close> replaces the nine entries by nine others. Ten probes have
  completed, the history has nine entries, and the sample 1944 is not among them.
\<close>

theorem overlapping_probes_lose_sample:
  "map latencyHistory eight_probed = [[- 1, 100, 100, 100, 100, 100, 100, 100]]
   \<and> map status eight_probed = [Inactive]
   \<and> configsToTest (map (\<lambda>c. (c, [])) eight_probed) = eight_probed
   \<and> autoTest_candidates False eight_probed = eight_probed
   \<and> map_option (\<lambda>s. map latencyHistory (s_configs s))
        (step sample_platform (Fin 3000) (Finish 0 draws_slow)
           (startTesting (map (\<lambda>c. (c, [])) eight_probed) eight_probed (Fin 3)))
      = Some [[1944, - 1, 100, 100, 100, 100, 100, 100, 100]]
   \<and> map_option (\<lambda>s. map latencyHistory
                        (autoTest_pass sample_platform (Fin 3000)
                           (zip (autoTest_candidates False eight_probed) [draws_fast])
                           (s_configs s)))
        (step sample_platform (Fin 3000) (Finish 0 draws_slow)
           (startTesting (map (\<lambda>c. (c, [])) eight_probed) eight_probed (Fin 3)))
      = Some [[100, - 1, 100, 100, 100, 100, 100, 100, 100]]"
  by (simp add: overlap_defs)

end
